theory Spec2Isabelle
  imports Main
begin

section \<open>Strings and the argument tokenizer\<close>

text \<open>
  The development embeds \<^verbatim>\<open>src/nodejs/enhanced_discord.js\<close>: the tokenizer
  \<^verbatim>\<open>Bot._parseArgs\<close>, the class \<^verbatim>\<open>Command\<close> and the dispatcher
  \<^verbatim>\<open>Bot._commandHandler\<close>.

  A JavaScript string is modelled as a \<^typ>\<open>string\<close>, one list element per character the
  \<^verbatim>\<open>for ... of\<close> loop visits. The loop compares each character only with the
  double quote, the space and the backslash, written \<open>dquote\<close>, \<open>CHR '' ''\<close> and
  \<open>backslash\<close> below.
\<close>

abbreviation dquote :: char where "dquote \<equiv> CHR 0x22"
abbreviation backslash :: char where "backslash \<equiv> CHR 0x5C"

text \<open>
  \<^verbatim>\<open>str.split(" ")\<close>: the pieces between single spaces, empty pieces included; the
  result is never the empty array (\<^verbatim>\<open>"".split(" ")\<close> is \<^verbatim>\<open>[""]\<close>).
\<close>

fun split_sp :: "string \<Rightarrow> string list" where
  "split_sp [] = [[]]"
| "split_sp (c # cs) =
     (if c = CHR '' '' then [] # split_sp cs
      else (case split_sp cs of [] \<Rightarrow> [[c]] | w # ws \<Rightarrow> (c # w) # ws))"

text \<open>\<^verbatim>\<open>array.join(" ")\<close>.\<close>

fun join_sp :: "string list \<Rightarrow> string" where
  "join_sp [] = []"
| "join_sp [w] = w"
| "join_sp (w # ws) = w @ CHR '' '' # join_sp ws"

text \<open>
  The local variables of \<^verbatim>\<open>Bot._parseArgs\<close> (lines 186--190): the finished tokens,
  the growing buffer and the three flags.
\<close>

record scan =
  argArr :: "string list"
  buffer :: string
  inQuote :: bool
  escaped :: bool
  ready :: bool

definition scan_init :: scan where
  "scan_init = \<lparr>argArr = [], buffer = [], inQuote = False, escaped = False, ready = False\<rparr>"

text \<open>
  One iteration of the loop has two parts. \<open>classify\<close> is the \<^verbatim>\<open>if\<close> chain of
  lines 192--213, in the order of the source: a pending escape wins over everything, then the
  double quote, then a space outside quotes, then the backslash, then any other character.
\<close>

definition classify :: "scan \<Rightarrow> char \<Rightarrow> scan" where
  "classify s c =
     (if escaped s then s\<lparr>buffer := buffer s @ [c], escaped := False\<rparr>
      else if c = dquote then
        (if inQuote s then s\<lparr>ready := True, inQuote := False\<rparr>
         else s\<lparr>inQuote := True\<rparr>)
      else if c = CHR '' '' \<and> \<not> inQuote s then s\<lparr>ready := True\<rparr>
      else if c = backslash then s\<lparr>escaped := True\<rparr>
      else s\<lparr>buffer := buffer s @ [c]\<rparr>)"

text \<open>
  \<open>flush\<close> is lines 214--220: push the buffer when the token is complete and the buffer is
  not the empty string, then clear the flag and the buffer whenever the flag was set.
\<close>

definition flush :: "scan \<Rightarrow> scan" where
  "flush s =
     (let s1 = (if ready s \<and> buffer s \<noteq> [] then s\<lparr>argArr := argArr s @ [buffer s]\<rparr> else s)
      in if ready s1 then s1\<lparr>ready := False, buffer := []\<rparr> else s1)"

definition step :: "scan \<Rightarrow> char \<Rightarrow> scan" where
  "step s c = flush (classify s c)"

text \<open>The \<^verbatim>\<open>for\<close> loop of lines 191--221 over the whole remainder.\<close>

definition scanLoop :: "string \<Rightarrow> scan" where
  "scanLoop argStr = foldl step scan_init argStr"

text \<open>Lines 222--225: a non-empty buffer left at the end of the string is the last token.\<close>

definition finish :: "scan \<Rightarrow> string list" where
  "finish s = (if buffer s \<noteq> [] then argArr s @ [buffer s] else argArr s)"

text \<open>
  The tokenizer proper (lines 186--225) works on the remainder \<^verbatim>\<open>argStr\<close> of the
  command line; \<^verbatim>\<open>Bot._parseArgs\<close> first cuts the leading word off the message
  content (line 185).
\<close>

definition tokenize :: "string \<Rightarrow> string list" where
  "tokenize argStr = finish (scanLoop argStr)"

definition Bot_parseArgs :: "string \<Rightarrow> string list" where
  "Bot_parseArgs str = tokenize (join_sp (drop 1 (split_sp str)))"

section \<open>Callbacks, effects and the call log\<close>

text \<open>
  Checks, command handlers and the error handler are functions supplied by the bot's author.
  A call may change the outside world (send a reply, bump a counter) and either returns or
  throws, so a callback is modelled as a function from the world before the call to its outcome
  and the world after it: \<open>Inl e\<close> is \<^verbatim>\<open>throw e\<close>, \<open>Inr v\<close> is a normal return.
  The world \<open>'w\<close> and the thrown values \<open>'e\<close> are left abstract. A check's return value
  is used only through \<^verbatim>\<open>!check(message)\<close>, so its result is its truthiness.
  An awaited handler that rejects is a handler that throws.
\<close>

datatype js_error = TypeError string

type_synonym ('e, 'a, 'w) effect = "'w \<Rightarrow> ('e + 'a) \<times> 'w"

text \<open>
  The fields of a message the dispatcher reads (\<^verbatim>\<open>message.author.bot\<close>,
  \<^verbatim>\<open>message.content\<close>); whatever else checks and handlers read lives in the record
  extension.
\<close>

record author =
  bot :: bool

record message =
  author :: author
  content :: string

text \<open>
  A JavaScript function object as \<^verbatim>\<open>Command\<close> uses it: its \<^verbatim>\<open>name\<close>
  property, the text \<^verbatim>\<open>toString()\<close> returns, and what calling it with a message and
  the argument tokens does.
\<close>

record ('m, 'e, 'w) Function =
  name :: string
  toString :: string
  call :: "'m \<Rightarrow> string list \<Rightarrow> ('e, unit, 'w) effect"

type_synonym ('m, 'e, 'w) check = "'m \<Rightarrow> ('e, bool, 'w) effect"

type_synonym ('m, 'e, 'w) errorHandler = "'m \<Rightarrow> 'e \<Rightarrow> ('e, unit, 'w) effect"

text \<open>
  To state how often and with which arguments a callback is called, every call the embedded
  code makes is logged with its arguments and its outcome: a check with its position in its
  check list, a handler with the position of its command in the registry. A run is the world
  together with the log so far. Callbacks see and change the world only; the registry and
  the check lists are fixed while one message is dispatched, and one dispatch is followed on
  its own: nothing else changes the world between two of its calls.
\<close>

datatype ('m, 'e) event =
    CheckCall nat 'm "'e + bool"
  | HandlerCall nat 'm "string list" "'e + unit"
  | ErrorHandlerCall 'm 'e "'e + unit"

record ('m, 'e, 'w) run =
  world :: 'w
  trace :: "('m, 'e) event list"

text \<open>Lines 11--13: the default error handler throws the error it is given.\<close>

definition defaultErrorHandler :: "('m, 'e, 'w) errorHandler" where
  "defaultErrorHandler message error = (\<lambda>w. (Inl error, w))"

section \<open>Command\<close>

record ('m, 'e, 'w) Command =
  name :: string
  usage :: string
  checks :: "('m, 'e, 'w) check list"
  commandFunction :: "('m, 'e, 'w) Function"

text \<open>
  \<^verbatim>\<open>Command._parseArgs\<close>, lines 68--84. The loop of lines 71--79 walks the indices of
  the function's text: \<^verbatim>\<open>start\<close> becomes the index of a \<^verbatim>\<open>(\<close> as long as it
  is still \<open>0\<close>, and the first \<^verbatim>\<open>)\<close> met while \<^verbatim>\<open>start\<close> is not \<open>0\<close>
  sets \<^verbatim>\<open>stop\<close> and leaves the loop; \<^verbatim>\<open>stop\<close> stays \<open>0\<close> when the loop runs
  out.
\<close>

fun findParens :: "string \<Rightarrow> nat \<Rightarrow> nat \<Rightarrow> nat \<times> nat" where
  "findParens [] charIndex start = (start, 0)"
| "findParens (c # cs) charIndex start =
     (let start' = (if start = 0 \<and> c = CHR ''('' then charIndex else start)
      in if start' \<noteq> 0 \<and> c = CHR '')'' then (start', charIndex)
         else findParens cs (Suc charIndex) start')"

text \<open>
  \<^verbatim>\<open>s.slice(beginIndex, endIndex)\<close> for indices that are not negative: empty when
  \<^verbatim>\<open>endIndex\<close> is not beyond \<^verbatim>\<open>beginIndex\<close>, cut at the end of the string.
\<close>

definition slice :: "nat \<Rightarrow> nat \<Rightarrow> string \<Rightarrow> string" where
  "slice beginIndex endIndex s = take (endIndex - beginIndex) (drop beginIndex s)"

text \<open>
  Lines 80--83: the text between the parentheses, with every space removed
  (\<^verbatim>\<open>.replace(/ /g, "")\<close>) and every comma turned into a space
  (\<^verbatim>\<open>.replace(/,/g, " ")\<close>); the result is \<^verbatim>\<open>args.slice(1)\<close>.
\<close>

definition Command_parseArgs :: "('m, 'e, 'w) Function \<Rightarrow> string" where
  "Command_parseArgs funct =
     (let string = Function.toString funct;
          (start, stop) = findParens string 0 0;
          args = map (\<lambda>c. if c = CHR '','' then CHR '' '' else c)
                   (filter (\<lambda>c. c \<noteq> CHR '' '') (slice (start + 1) stop string))
      in drop 1 args)"

text \<open>
  For comparison, the derivation as the specification words it: the text between the first
  opening parenthesis and the next closing one, with all whitespace stripped and commas
  replaced by single spaces, without its first token.
\<close>

definition is_whitespace :: "char \<Rightarrow> bool" where
  "is_whitespace c \<longleftrightarrow> c \<in> set [CHR '' '', CHR 0x09, CHR 0x0A, CHR 0x0B, CHR 0x0C, CHR 0x0D]"

definition usage_by_spec :: "('m, 'e, 'w) Function \<Rightarrow> string" where
  "usage_by_spec funct =
     (let params = takeWhile (\<lambda>c. c \<noteq> CHR '')'')
                     (drop 1 (dropWhile (\<lambda>c. c \<noteq> CHR ''('') (Function.toString funct)));
          stripped = filter (\<lambda>c. \<not> is_whitespace c) params;
          spaced = map (\<lambda>c. if c = CHR '','' then CHR '' '' else c) stripped
      in join_sp (drop 1 (split_sp spaced)))"

text \<open>
  The constructor, lines 24--38. An argument left out is \<open>None\<close>; \<^verbatim>\<open>!name\<close> and
  \<^verbatim>\<open>!usage\<close> hold for a missing argument and for the empty string.
\<close>

definition Command_new ::
  "('m, 'e, 'w) Function option \<Rightarrow> string option \<Rightarrow> string option \<Rightarrow>
   ('m, 'e, 'w) check list option \<Rightarrow> js_error + ('m, 'e, 'w) Command" where
  "Command_new commandFunction' name' usage' checks' =
     (case commandFunction' of
        None \<Rightarrow> Inl (TypeError ''A function must be given to the command'')
      | Some f \<Rightarrow>
          Inr \<lparr> Command.name =
                  (case name' of
                     None \<Rightarrow> Function.name f
                   | Some n \<Rightarrow> if n = [] \<or> CHR '' '' \<in> set n then Function.name f else n),
                usage =
                  (case usage' of
                     None \<Rightarrow> Command_parseArgs f
                   | Some u \<Rightarrow> if u = [] then Command_parseArgs f else u),
                Command.checks = (case checks' of None \<Rightarrow> [] | Some cs \<Rightarrow> cs),
                commandFunction = f \<rparr>)"

text \<open>\<^verbatim>\<open>Command.addCheck\<close>, lines 44--48: every argument is pushed, in order.\<close>

definition Command_addCheck ::
  "('m, 'e, 'w) check list \<Rightarrow> ('m, 'e, 'w) Command \<Rightarrow> ('m, 'e, 'w) Command" where
  "Command_addCheck chk this = this\<lparr>Command.checks := Command.checks this @ chk\<rparr>"

text \<open>One call \<^verbatim>\<open>check(message)\<close>, logged with the check's position \<open>k\<close>.\<close>

definition call_check ::
  "nat \<Rightarrow> ('m, 'e, 'w) check \<Rightarrow> 'm \<Rightarrow> ('m, 'e, 'w) run \<Rightarrow> ('e + bool) \<times> ('m, 'e, 'w) run" where
  "call_check k check message r =
     (let (res, w) = check message (world r)
      in (res, \<lparr>world = w, trace = trace r @ [CheckCall k message res]\<rparr>))"

text \<open>
  The loop \<^verbatim>\<open>for (let check of checks) { if (!check(message)) return ...; }\<close>, which
  the source has twice: in \<^verbatim>\<open>Command.performChecks\<close> (lines 56--58) and over the
  global checks in \<^verbatim>\<open>Bot._commandHandler\<close> (lines 162--164). The result \<open>Inr False\<close>
  says that the loop returned early, \<open>Inr True\<close> that it ran to its end, \<open>Inl e\<close> that a
  check threw \<open>e\<close>, which nothing in the loop catches.
\<close>

fun run_checks ::
  "nat \<Rightarrow> ('m, 'e, 'w) check list \<Rightarrow> 'm \<Rightarrow> ('m, 'e, 'w) run \<Rightarrow> ('e + bool) \<times> ('m, 'e, 'w) run" where
  "run_checks k [] message r = (Inr True, r)"
| "run_checks k (check # rest) message r =
     (case call_check k check message r of
        (Inl e, r') \<Rightarrow> (Inl e, r')
      | (Inr passed, r') \<Rightarrow>
          if \<not> passed then (Inr False, r') else run_checks (Suc k) rest message r')"

text \<open>\<^verbatim>\<open>Command.performChecks\<close>, lines 55--60.\<close>

definition performChecks ::
  "('m, 'e, 'w) Command \<Rightarrow> 'm \<Rightarrow> ('m, 'e, 'w) run \<Rightarrow> ('e + bool) \<times> ('m, 'e, 'w) run" where
  "performChecks this message r = run_checks 0 (Command.checks this) message r"

section \<open>Bot\<close>

text \<open>The four fields the constructor (lines 96--106) sets on the client.\<close>

record ('m, 'e, 'w) Bot =
  errorHandler :: "('m, 'e, 'w) errorHandler"
  commands :: "('m, 'e, 'w) Command list"
  checks :: "('m, 'e, 'w) check list"
  prefix :: string

text \<open>\<^verbatim>\<open>Bot.addCheck\<close> (lines 125--129) and \<^verbatim>\<open>Bot.addCommand\<close> (lines 135--139).\<close>

definition Bot_addCheck ::
  "('m, 'e, 'w) check list \<Rightarrow> ('m, 'e, 'w) Bot \<Rightarrow> ('m, 'e, 'w) Bot" where
  "Bot_addCheck chk this = this\<lparr>Bot.checks := Bot.checks this @ chk\<rparr>"


text \<open>
  \<^verbatim>\<open>s.replace(pat, "")\<close> with a string pattern: the first occurrence of the pattern is
  removed, wherever it stands.
\<close>

fun remove_first :: "string \<Rightarrow> string \<Rightarrow> string" where
  "remove_first pat [] = []"
| "remove_first pat (c # cs) =
     (if take (length pat) (c # cs) = pat then drop (length pat) (c # cs)
      else c # remove_first pat cs)"

text \<open>
  Line 159: \<^verbatim>\<open>message.content.split(" ")[0].replace(this.prefix, "")\<close>. The array
  \<^verbatim>\<open>split\<close> returns always has a first element.
\<close>

definition parsed_verb :: "string \<Rightarrow> string \<Rightarrow> string" where
  "parsed_verb prefix' content' =
     remove_first prefix' (case split_sp content' of [] \<Rightarrow> [] | w # ws \<Rightarrow> w)"

text \<open>
  The calls of lines 169 and 172, logged: the handler of the command at position \<open>i\<close> of the
  registry gets the message and the tokens, the error handler gets the message and the error.
\<close>

definition call_handler ::
  "nat \<Rightarrow> ('m, 'e, 'w) Command \<Rightarrow> 'm \<Rightarrow> string list \<Rightarrow> ('m, 'e, 'w) run \<Rightarrow>
   ('e + unit) \<times> ('m, 'e, 'w) run" where
  "call_handler i command message args r =
     (let (res, w) = call (commandFunction command) message args (world r)
      in (res, \<lparr>world = w, trace = trace r @ [HandlerCall i message args res]\<rparr>))"

definition call_errorHandler ::
  "('m, 'e, 'w) errorHandler \<Rightarrow> 'm \<Rightarrow> 'e \<Rightarrow> ('m, 'e, 'w) run \<Rightarrow> ('e + unit) \<times> ('m, 'e, 'w) run" where
  "call_errorHandler handler message error r =
     (let (res, w) = handler message error (world r)
      in (res, \<lparr>world = w, trace = trace r @ [ErrorHandlerCall message error res]\<rparr>))"

text \<open>
  The \<^verbatim>\<open>try\<close>/\<^verbatim>\<open>catch\<close> of lines 168--173: what the handler throws goes to the
  error handler; what the error handler throws is not caught.
\<close>

definition invoke ::
  "('m, 'e, 'w) errorHandler \<Rightarrow> 'm \<Rightarrow> string list \<Rightarrow> nat \<Rightarrow> ('m, 'e, 'w) Command \<Rightarrow>
   ('m, 'e, 'w) run \<Rightarrow> ('e + unit) \<times> ('m, 'e, 'w) run" where
  "invoke handler message args i command r =
     (case call_handler i command message args r of
        (Inr u, r') \<Rightarrow> (Inr (), r')
      | (Inl error, r') \<Rightarrow> call_errorHandler handler message error r')"

text \<open>
  The body of the loop over the registry, lines 167--174. The name is compared first
  (\<^verbatim>\<open>&&\<close>), so the checks of a command with another name are not evaluated.
\<close>

definition loopBody ::
  "('m, 'e, 'w) errorHandler \<Rightarrow> string \<Rightarrow> string list \<Rightarrow> 'm \<Rightarrow> nat \<Rightarrow>
   ('m, 'e, 'w) Command \<Rightarrow> ('m, 'e, 'w) run \<Rightarrow> ('e + unit) \<times> ('m, 'e, 'w) run" where
  "loopBody handler verb args message i command r =
     (if Command.name command = verb then
        (case performChecks command message r of
           (Inl e, r') \<Rightarrow> (Inl e, r')
         | (Inr passed, r') \<Rightarrow>
             if passed then invoke handler message args i command r' else (Inr (), r'))
      else (Inr (), r))"

text \<open>The loop of lines 166--175 over the commands from position \<open>i\<close> on.\<close>

fun commandLoop ::
  "('m, 'e, 'w) errorHandler \<Rightarrow> string \<Rightarrow> string list \<Rightarrow> 'm \<Rightarrow> nat \<Rightarrow>
   ('m, 'e, 'w) Command list \<Rightarrow> ('m, 'e, 'w) run \<Rightarrow> ('e + unit) \<times> ('m, 'e, 'w) run" where
  "commandLoop handler verb args message i [] r = (Inr (), r)"
| "commandLoop handler verb args message i (command # rest) r =
     (case loopBody handler verb args message i command r of
        (Inl e, r') \<Rightarrow> (Inl e, r')
      | (Inr u, r') \<Rightarrow> commandLoop handler verb args message (Suc i) rest r')"

text \<open>
  \<^verbatim>\<open>Bot._commandHandler\<close>, lines 158--176: parse the verb and the arguments, run the
  global checks (a falsy one ends the dispatch by \<^verbatim>\<open>return\<close>), then loop over the
  registry.
\<close>

definition commandHandler ::
  "('x message_scheme, 'e, 'w) Bot \<Rightarrow> 'x message_scheme \<Rightarrow> ('x message_scheme, 'e, 'w) run \<Rightarrow>
   ('e + unit) \<times> ('x message_scheme, 'e, 'w) run" where
  "commandHandler this message r =
     (let verb = parsed_verb (prefix this) (content message);
          args = Bot_parseArgs (content message)
      in case run_checks 0 (Bot.checks this) message r of
           (Inl e, r1) \<Rightarrow> (Inl e, r1)
         | (Inr passed, r1) \<Rightarrow>
             if \<not> passed then (Inr (), r1)
             else commandLoop (errorHandler this) verb args message 0 (commands this) r1)"

text \<open>
  The loop over the registry cut before position \<open>i\<close>, in the run the global checks left.
  Its result tells whether the loop of a dispatch gets as far as the command at position
  \<open>i\<close> (\<open>Inr ()\<close>) or an error has left it before (\<open>Inl e\<close>); its run is the one
  in which the checks of that command are evaluated.
\<close>

definition loop_until ::
  "('x message_scheme, 'e, 'w) Bot \<Rightarrow> 'x message_scheme \<Rightarrow> ('x message_scheme, 'e, 'w) run \<Rightarrow> nat \<Rightarrow>
   ('e + unit) \<times> ('x message_scheme, 'e, 'w) run" where
  "loop_until this message r i =
     commandLoop (errorHandler this) (parsed_verb (prefix this) (content message))
       (Bot_parseArgs (content message)) message 0 (take i (commands this))
       (snd (run_checks 0 (Bot.checks this) message r))"

text \<open>\<^verbatim>\<open>Bot.on_message\<close>, lines 146--150.\<close>

definition startsWith :: "string \<Rightarrow> string \<Rightarrow> bool" where
  "startsWith s p = (take (length p) s = p)"

definition on_message ::
  "('x message_scheme, 'e, 'w) Bot \<Rightarrow> 'x message_scheme \<Rightarrow> ('x message_scheme, 'e, 'w) run \<Rightarrow>
   ('e + unit) \<times> ('x message_scheme, 'e, 'w) run" where
  "on_message this message r =
     (if \<not> bot (author message) \<and> startsWith (content message) (prefix this)
      then commandHandler this message r else (Inr (), r))"

section \<open>Reading the call log\<close>

text \<open>The events a run added to the log.\<close>

definition new_events :: "('m, 'e, 'w) run \<Rightarrow> ('m, 'e, 'w) run \<Rightarrow> ('m, 'e) event list" where
  "new_events r r' = drop (length (trace r)) (trace r')"

text \<open>
  The handler invocations of a log (registry position, message, argument tokens), the errors
  thrown by handler invocations, and the arguments of the calls of the error handler, each in
  the order of the log.
\<close>

fun invocations :: "('m, 'e) event list \<Rightarrow> (nat \<times> 'm \<times> string list) list" where
  "invocations [] = []"
| "invocations (HandlerCall i m a res # evs) = (i, m, a) # invocations evs"
| "invocations (ev # evs) = invocations evs"

fun thrown :: "('m, 'e) event list \<Rightarrow> 'e list" where
  "thrown [] = []"
| "thrown (HandlerCall i m a (Inl e) # evs) = e # thrown evs"
| "thrown (ev # evs) = thrown evs"

fun handled :: "('m, 'e) event list \<Rightarrow> ('m \<times> 'e) list" where
  "handled [] = []"
| "handled (ErrorHandlerCall m e res # evs) = (m, e) # handled evs"
| "handled (ev # evs) = handled evs"

fun is_check_call :: "('m, 'e) event \<Rightarrow> bool" where
  "is_check_call (CheckCall k m res) = True"
| "is_check_call ev = False"

text \<open>A call of a check that threw.\<close>

fun check_raised :: "('m, 'e) event \<Rightarrow> bool" where
  "check_raised (CheckCall k m (Inl e)) = True"
| "check_raised ev = False"

text \<open>
  A list of events in which only the last event can be a check that threw, and in which such
  a last event decides the result.
\<close>

definition stops_at_raise :: "'e + 'a \<Rightarrow> ('m, 'e) event list \<Rightarrow> bool" where
  "stops_at_raise res evs \<longleftrightarrow>
     (\<forall>ev \<in> set (butlast evs). \<not> check_raised ev) \<and>
     (\<forall>k m e. evs \<noteq> [] \<longrightarrow> last evs = CheckCall k m (Inl e) \<longrightarrow> res = Inl e)"

section \<open>Concrete checks, handlers, commands and bots\<close>

text \<open>
  Inputs on which the theorems below are instantiated. The world is a counter every callback
  bumps, the errors are strings, and the message is \<^verbatim>\<open>$ping a b\<close> from a human
  author. \<open>hidden_fn\<close> is the handler \<^verbatim>\<open>hidden\<close> of the repository's example
  script, with the text of its declaration (line break, tab, quote and backquote by their
  codes); \<open>bound_hello_fn\<close> is what
  \<^verbatim>\<open>hello.bind(null)\<close> returns for a function \<^verbatim>\<open>hello\<close>: a function
  whose \<^verbatim>\<open>name\<close> is \<^verbatim>\<open>bound hello\<close>.
\<close>

definition run0 :: "(message, string, nat) run" where
  "run0 = \<lparr>world = 0, trace = []\<rparr>"

definition ping_message :: message where
  "ping_message = \<lparr>author = \<lparr>bot = False\<rparr>, content = ''$ping a b''\<rparr>"

definition returnsTrue :: "(message, string, nat) check" where
  "returnsTrue m w = (Inr True, Suc w)"

definition returnsFalse :: "(message, string, nat) check" where
  "returnsFalse m w = (Inr False, Suc w)"

definition neverCalled :: "(message, string, nat) check" where
  "neverCalled m w = (Inl ''called'', Suc w)"

definition isGuildOwner :: "(message, string, nat) check" where
  "isGuildOwner m w = (Inl ''PermissionError'', w)"

definition quietErrorHandler :: "(message, string, nat) errorHandler" where
  "quietErrorHandler m e w = (Inr (), w + 100)"

definition ping_fn :: "(message, string, nat) Function" where
  "ping_fn = \<lparr>Function.name = ''ping'', toString = ''function ping(msg){}'',
              call = (\<lambda>m a w. (Inr (), w + 10))\<rparr>"

definition boom_fn :: "(message, string, nat) Function" where
  "boom_fn = \<lparr>Function.name = ''ping'', toString = ''function ping(msg){}'',
              call = (\<lambda>m a w. (Inl ''boom'', w))\<rparr>"

definition hidden_source :: string where
  "hidden_source =
     ''async function hidden(msg, arg1){'' @ [CHR 0x0A, CHR 0x09] @
     ''if (!arg1) arg1 = '' @ [CHR 0x27] @ ''Nothing'' @ [CHR 0x27] @ '';'' @ [CHR 0x0A] @
     ''    await msg.channel.send('' @ [CHR 0x60] @ ''The owner : ${arg1}'' @ [CHR 0x60] @ '');'' @
     [CHR 0x0A] @ ''}''"

definition hidden_fn :: "(message, string, nat) Function" where
  "hidden_fn = \<lparr>Function.name = ''hidden'', toString = hidden_source,
                call = (\<lambda>m a w. (Inr (), w))\<rparr>"

definition bound_hello_fn :: "(message, string, nat) Function" where
  "bound_hello_fn = \<lparr>Function.name = ''bound hello'', toString = ''function () { [native code] }'',
                     call = (\<lambda>m a w. (Inr (), w))\<rparr>"

definition ping_command :: "(message, string, nat) Command" where
  "ping_command = \<lparr>Command.name = ''ping'', usage = [], Command.checks = [], commandFunction = ping_fn\<rparr>"

definition boom_command :: "(message, string, nat) Command" where
  "boom_command = \<lparr>Command.name = ''ping'', usage = [], Command.checks = [], commandFunction = boom_fn\<rparr>"

definition guarded_command :: "(message, string, nat) Command" where
  "guarded_command =
     \<lparr>Command.name = ''ping'', usage = [], Command.checks = [isGuildOwner], commandFunction = ping_fn\<rparr>"

definition pong_command :: "(message, string, nat) Command" where
  "pong_command = \<lparr>Command.name = ''pong'', usage = [], Command.checks = [], commandFunction = ping_fn\<rparr>"

definition three_checks_command :: "(message, string, nat) Command" where
  "three_checks_command =
     \<lparr>Command.name = ''ping'', usage = [],
      Command.checks = [returnsTrue, returnsFalse, neverCalled], commandFunction = ping_fn\<rparr>"

definition two_ping_bot :: "(message, string, nat) Bot" where
  "two_ping_bot =
     \<lparr>errorHandler = defaultErrorHandler, commands = [ping_command, pong_command, ping_command],
      Bot.checks = [returnsTrue], prefix = ''$''\<rparr>"

definition boom_first_bot :: "(message, string, nat) Bot" where
  "boom_first_bot =
     \<lparr>errorHandler = defaultErrorHandler, commands = [boom_command, ping_command],
      Bot.checks = [], prefix = ''$''\<rparr>"

definition quiet_bot :: "(message, string, nat) Bot" where
  "quiet_bot =
     \<lparr>errorHandler = quietErrorHandler, commands = [boom_command, ping_command],
      Bot.checks = [], prefix = ''$''\<rparr>"

definition closed_bot :: "(message, string, nat) Bot" where
  "closed_bot =
     \<lparr>errorHandler = quietErrorHandler, commands = [boom_command, ping_command],
      Bot.checks = [returnsTrue, returnsFalse], prefix = ''$''\<rparr>"

definition owner_only_bot :: "(message, string, nat) Bot" where
  "owner_only_bot =
     \<lparr>errorHandler = quietErrorHandler, commands = [boom_command, ping_command],
      Bot.checks = [isGuildOwner], prefix = ''$''\<rparr>"

definition guarded_bot :: "(message, string, nat) Bot" where
  "guarded_bot =
     \<lparr>errorHandler = quietErrorHandler, commands = [ping_command, guarded_command, ping_command],
      Bot.checks = [], prefix = ''$''\<rparr>"

definition multiline_fn :: "(message, string, nat) Function" where
  "multiline_fn = \<lparr>Function.name = ''f'', toString = ''function f(msg,'' @ [CHR 0x0A] @ ''arg1){}'',
                   call = (\<lambda>m a w. (Inr (), w))\<rparr>"

definition boom_middle_bot :: "(message, string, nat) Bot" where
  "boom_middle_bot =
     \<lparr>errorHandler = defaultErrorHandler, commands = [ping_command, boom_command, ping_command],
      Bot.checks = [returnsTrue], prefix = ''$''\<rparr>"

section \<open>The scan loop, step by step\<close>

text \<open>
  The completion flag is local to one iteration: it is never set between two characters.
\<close>

lemma step_ready [simp]: "\<not> ready s \<Longrightarrow> \<not> ready (step s c)"
  by (simp add: step_def flush_def classify_def Let_def)

lemma foldl_step_ready [simp]: "\<not> ready s \<Longrightarrow> \<not> ready (foldl step s cs)"
  by (induction cs arbitrary: s) simp_all

lemma scanLoop_ready [simp]: "\<not> ready (scanLoop cs)"
  by (simp add: scanLoop_def scan_init_def)

lemma scanLoop_snoc: "scanLoop (cs @ [c]) = step (scanLoop cs) c"
  by (simp add: scanLoop_def)

lemma scanLoop_append: "scanLoop (cs @ ds) = foldl step (scanLoop cs) ds"
  by (simp add: scanLoop_def)

lemma step_nonempty:
  "\<forall>t \<in> set (argArr s). t \<noteq> [] \<Longrightarrow> \<forall>t \<in> set (argArr (step s c)). t \<noteq> []"
  by (simp add: step_def flush_def classify_def Let_def)

lemma foldl_step_nonempty:
  "\<forall>t \<in> set (argArr s). t \<noteq> [] \<Longrightarrow> \<forall>t \<in> set (argArr (foldl step s cs)). t \<noteq> []"
proof (induction cs arbitrary: s)
  case Nil then show ?case by simp
next
  case (Cons c cs)
  have "\<forall>t \<in> set (argArr (step s c)). t \<noteq> []" using Cons.prems by (rule step_nonempty)
  then show ?case using Cons.IH by simp
qed

lemma tokenize_nonempty: "\<forall>t \<in> set (tokenize s). t \<noteq> []"
proof -
  have "\<forall>t \<in> set (argArr (scanLoop s)). t \<noteq> []"
    unfolding scanLoop_def by (rule foldl_step_nonempty) (simp add: scan_init_def)
  then show ?thesis by (simp add: tokenize_def finish_def)
qed

lemma step_space_outside:
  "\<not> inQuote s \<Longrightarrow> \<not> escaped s \<Longrightarrow>
   step s (CHR '' '') = s\<lparr>argArr := (if buffer s \<noteq> [] then argArr s @ [buffer s] else argArr s), buffer := [], ready := False\<rparr>"
  by (simp add: step_def flush_def classify_def Let_def)

lemma step_space_idem:
  "\<not> inQuote s \<Longrightarrow> \<not> escaped s \<Longrightarrow> step (step s (CHR '' '')) (CHR '' '') = step s (CHR '' '')"
  by (simp add: step_space_outside)

lemma foldl_spaces:
  "\<not> inQuote s \<Longrightarrow> \<not> escaped s \<Longrightarrow> foldl step s (replicate (Suc n) (CHR '' '')) = step s (CHR '' '')"
proof (induction n)
  case 0 then show ?case by simp
next
  case (Suc n)
  have "foldl step s (replicate (Suc (Suc n)) (CHR '' '')) = step (foldl step s (replicate (Suc n) (CHR '' ''))) (CHR '' '')"
    by (simp only: replicate_Suc [of "Suc n"] replicate_append_same [symmetric] foldl_append) simp
  then show ?case using Suc by (simp add: step_space_idem)
qed

lemma tokenize_spaces_collapse:
  "\<not> inQuote (scanLoop s) \<Longrightarrow> \<not> escaped (scanLoop s) \<Longrightarrow>
   tokenize (s @ replicate (Suc n) (CHR '' '') @ t) = tokenize (s @ CHR '' '' # t)"
  by (simp add: tokenize_def scanLoop_def foldl_spaces del: replicate_Suc)

lemma split_sp_nonempty [simp]: "split_sp s \<noteq> []"
  by (induction s) (auto split: list.splits)

lemma split_sp_Cons:
  "split_sp (c # cs) =
     (if c = CHR '' '' then [] # split_sp cs else (c # hd (split_sp cs)) # tl (split_sp cs))"
  by (cases "split_sp cs") simp_all

lemma step_literal:
  "\<not> escaped s \<Longrightarrow> \<not> ready s \<Longrightarrow> c \<noteq> dquote \<Longrightarrow> c \<noteq> backslash \<Longrightarrow>
   inQuote s \<or> c \<noteq> CHR '' '' \<Longrightarrow> step s c = s\<lparr>buffer := buffer s @ [c]\<rparr>"
  by (auto simp add: step_def flush_def classify_def Let_def)

lemma foldl_step_literal:
  "\<not> escaped s \<Longrightarrow> \<not> ready s \<Longrightarrow> dquote \<notin> set q \<Longrightarrow> backslash \<notin> set q \<Longrightarrow>
   inQuote s \<or> CHR '' '' \<notin> set q \<Longrightarrow> foldl step s q = s\<lparr>buffer := buffer s @ q\<rparr>"
proof (induction q arbitrary: s)
  case Nil then show ?case by simp
next
  case (Cons c q)
  have st: "step s c = s\<lparr>buffer := buffer s @ [c]\<rparr>"
    using Cons.prems by (intro step_literal) auto
  have "foldl step (s\<lparr>buffer := buffer s @ [c]\<rparr>) q
        = (s\<lparr>buffer := buffer s @ [c]\<rparr>)\<lparr>buffer := buffer (s\<lparr>buffer := buffer s @ [c]\<rparr>) @ q\<rparr>"
    using Cons.prems by (intro Cons.IH) auto
  then show ?case using st by simp
qed

lemma step_open_quote:
  "\<not> escaped s \<Longrightarrow> \<not> ready s \<Longrightarrow> \<not> inQuote s \<Longrightarrow> step s dquote = s\<lparr>inQuote := True\<rparr>"
  by (simp add: step_def flush_def classify_def Let_def)

lemma step_close_quote:
  "\<not> escaped s \<Longrightarrow> \<not> ready s \<Longrightarrow> inQuote s \<Longrightarrow>
   step s dquote = s\<lparr>argArr := (if buffer s \<noteq> [] then argArr s @ [buffer s] else argArr s),
                     buffer := [], inQuote := False\<rparr>"
  by (simp add: step_def flush_def classify_def Let_def)

lemma classify_shift:
  "classify (s\<lparr>argArr := a @ argArr s\<rparr>) c = (classify s c)\<lparr>argArr := a @ argArr (classify s c)\<rparr>"
  by (simp add: classify_def)

lemma flush_shift:
  "flush (s\<lparr>argArr := a @ argArr s\<rparr>) = (flush s)\<lparr>argArr := a @ argArr (flush s)\<rparr>"
  by (simp add: flush_def)

lemma step_shift:
  "step (s\<lparr>argArr := a @ argArr s\<rparr>) c = (step s c)\<lparr>argArr := a @ argArr (step s c)\<rparr>"
  by (simp add: step_def classify_shift flush_shift)

lemma foldl_step_shift:
  "foldl step (s\<lparr>argArr := a @ argArr s\<rparr>) cs
   = (foldl step s cs)\<lparr>argArr := a @ argArr (foldl step s cs)\<rparr>"
  by (induction cs arbitrary: s) (simp_all add: step_shift)

lemma finish_shift: "finish (s\<lparr>argArr := a @ argArr s\<rparr>) = a @ finish s"
  by (simp add: finish_def)

lemma tokenize_after_token:
  "finish (foldl step (scan_init\<lparr>argArr := [t]\<rparr>) rest) = t # tokenize rest"
proof -
  have "scan_init\<lparr>argArr := [t]\<rparr> = scan_init\<lparr>argArr := [t] @ argArr scan_init\<rparr>"
    by (simp add: scan_init_def)
  then show ?thesis
    by (simp only: foldl_step_shift finish_shift tokenize_def scanLoop_def) simp
qed

lemma tokenize_quoted_region:
  assumes p: "CHR '' '' \<notin> set p" "dquote \<notin> set p" "backslash \<notin> set p"
    and q: "dquote \<notin> set q" "backslash \<notin> set q"
    and ne: "p @ q \<noteq> []"
  shows "tokenize (p @ [dquote] @ q @ [dquote] @ rest) = (p @ q) # tokenize rest"
proof -
  have 1: "foldl step scan_init p = scan_init\<lparr>buffer := p\<rparr>"
    using p by (subst foldl_step_literal) (simp_all add: scan_init_def)
  have 2: "step (scan_init\<lparr>buffer := p\<rparr>) dquote = scan_init\<lparr>buffer := p, inQuote := True\<rparr>"
    by (subst step_open_quote) (simp_all add: scan_init_def)
  have 3: "foldl step (scan_init\<lparr>buffer := p, inQuote := True\<rparr>) q
           = scan_init\<lparr>buffer := p @ q, inQuote := True\<rparr>"
    using q by (subst foldl_step_literal) (simp_all add: scan_init_def)
  have 4: "step (scan_init\<lparr>buffer := p @ q, inQuote := True\<rparr>) dquote = scan_init\<lparr>argArr := [p @ q]\<rparr>"
    using ne by (subst step_close_quote) (simp_all add: scan_init_def)
  have "scanLoop (p @ [dquote] @ q @ [dquote] @ rest)
        = foldl step (scan_init\<lparr>argArr := [p @ q]\<rparr>) rest"
    by (simp add: scanLoop_def 1 2 3 4)
  then show ?thesis by (simp add: tokenize_def tokenize_after_token)
qed

lemma finish_plain:
  "\<not> inQuote s \<Longrightarrow> \<not> escaped s \<Longrightarrow> \<not> ready s \<Longrightarrow> dquote \<notin> set cs \<Longrightarrow> backslash \<notin> set cs \<Longrightarrow>
   finish (foldl step s cs)
   = argArr s @ filter (\<lambda>w. w \<noteq> []) ((buffer s @ hd (split_sp cs)) # tl (split_sp cs))"
proof (induction cs arbitrary: s)
  case Nil then show ?case by (simp add: finish_def)
next
  case (Cons c cs)
  show ?case
  proof (cases "c = CHR '' ''")
    case True
    let ?s' = "s\<lparr>argArr := (if buffer s \<noteq> [] then argArr s @ [buffer s] else argArr s), buffer := [], ready := False\<rparr>"
    have st: "step s c = ?s'" using True Cons.prems by (simp add: step_space_outside)
    have "finish (foldl step ?s' cs)
          = argArr ?s' @ filter (\<lambda>w. w \<noteq> []) ((buffer ?s' @ hd (split_sp cs)) # tl (split_sp cs))"
      using Cons.prems by (intro Cons.IH) auto
    then show ?thesis using st True by (simp add: split_sp_Cons del: split_sp.simps(2))
  next
    case False
    let ?s' = "s\<lparr>buffer := buffer s @ [c]\<rparr>"
    have st: "step s c = ?s'" using False Cons.prems by (intro step_literal) auto
    have "finish (foldl step ?s' cs)
          = argArr ?s' @ filter (\<lambda>w. w \<noteq> []) ((buffer ?s' @ hd (split_sp cs)) # tl (split_sp cs))"
      using Cons.prems by (intro Cons.IH) auto
    then show ?thesis using st False by (simp add: split_sp_Cons del: split_sp.simps(2))
  qed
qed

lemma tokenize_plain:
  "dquote \<notin> set cs \<Longrightarrow> backslash \<notin> set cs \<Longrightarrow> tokenize cs = filter (\<lambda>w. w \<noteq> []) (split_sp cs)"
  unfolding tokenize_def scanLoop_def
  by (subst finish_plain) (simp_all add: scan_init_def)

lemma step_escape_pair:
  "\<not> escaped s \<Longrightarrow> \<not> ready s \<Longrightarrow> step (step s backslash) c = s\<lparr>buffer := buffer s @ [c]\<rparr>"
  by (simp add: step_def flush_def classify_def Let_def)

lemma step_backslash:
  "\<not> escaped s \<Longrightarrow> \<not> ready s \<Longrightarrow> step s backslash = s\<lparr>escaped := True\<rparr>"
  by (simp add: step_def flush_def classify_def Let_def)

lemma scanLoop_escape_pair:
  "\<not> escaped (scanLoop s) \<Longrightarrow>
   scanLoop (s @ [backslash, c]) = (scanLoop s)\<lparr>buffer := buffer (scanLoop s) @ [c]\<rparr>"
  by (simp add: scanLoop_append step_escape_pair)

lemma tokenize_trailing_backslash:
  "\<not> escaped (scanLoop s) \<Longrightarrow> tokenize (s @ [backslash]) = tokenize s"
  by (simp add: tokenize_def scanLoop_snoc step_backslash finish_def)

lemma split_sp_spaces: "filter (\<lambda>w. w \<noteq> []) (split_sp (replicate n (CHR '' ''))) = []"
  by (induction n) simp_all

lemma clean_state:
  "\<not> inQuote s \<Longrightarrow> \<not> escaped s \<Longrightarrow> \<not> ready s \<Longrightarrow> buffer s = [] \<Longrightarrow>
   s = scan_init\<lparr>argArr := argArr s @ argArr scan_init\<rparr>"
  by (cases s) (simp add: scan_init_def)

lemma finish_foldl_clean:
  assumes "\<not> inQuote s" "\<not> escaped s" "\<not> ready s" "buffer s = []"
  shows "finish (foldl step s rest) = argArr s @ tokenize rest"
proof -
  have "foldl step s rest = foldl step (scan_init\<lparr>argArr := argArr s @ argArr scan_init\<rparr>) rest"
    using clean_state [OF assms] by simp
  then show ?thesis
    by (simp only: foldl_step_shift finish_shift tokenize_def scanLoop_def)
qed

lemma scanLoop_space_outside:
  assumes "\<not> inQuote (scanLoop pre)" "\<not> escaped (scanLoop pre)"
  shows "scanLoop (pre @ '' '') =
     (scanLoop pre)\<lparr>argArr := (if buffer (scanLoop pre) \<noteq> []
                                 then argArr (scanLoop pre) @ [buffer (scanLoop pre)]
                                 else argArr (scanLoop pre)),
                     buffer := []\<rparr>"
proof -
  have "\<not> ready (scanLoop pre)" by simp
  then show ?thesis
    using assms by (cases "scanLoop pre") (simp add: scanLoop_snoc step_space_outside)
qed

lemma scanLoop_literal:
  assumes "\<not> escaped (scanLoop pre)" "c \<noteq> dquote" "c \<noteq> backslash"
    "inQuote (scanLoop pre) \<or> c \<noteq> CHR '' ''"
  shows "scanLoop (pre @ [c]) = (scanLoop pre)\<lparr>buffer := buffer (scanLoop pre) @ [c]\<rparr>"
  using assms by (simp add: scanLoop_snoc step_literal)

lemma tokenize_space_outside:
  assumes "\<not> inQuote (scanLoop pre)" "\<not> escaped (scanLoop pre)"
  shows "tokenize (pre @ '' '' @ rest) = tokenize pre @ tokenize rest"
proof -
  let ?s = "scanLoop (pre @ '' '')"
  have s: "?s = (scanLoop pre)\<lparr>argArr := finish (scanLoop pre), buffer := []\<rparr>"
    using scanLoop_space_outside [OF assms] by (simp add: finish_def)
  have "finish (foldl step ?s rest) = argArr ?s @ tokenize rest"
    by (rule finish_foldl_clean) (simp_all add: s assms)
  moreover have "scanLoop (pre @ '' '' @ rest) = foldl step ?s rest"
    by (simp add: scanLoop_def)
  ultimately show ?thesis by (simp add: tokenize_def s)
qed

lemma tokenize_quoted_anywhere:
  assumes "\<not> inQuote (scanLoop pre)" "\<not> escaped (scanLoop pre)"
    and q: "dquote \<notin> set q" "backslash \<notin> set q"
  shows "tokenize (pre @ [dquote] @ q @ [dquote] @ rest) =
     argArr (scanLoop pre) @
     (if buffer (scanLoop pre) @ q \<noteq> [] then [buffer (scanLoop pre) @ q] else []) @
     tokenize rest"
proof -
  let ?s = "scanLoop pre"
  let ?s1 = "?s\<lparr>inQuote := True\<rparr>"
  let ?s2 = "?s1\<lparr>buffer := buffer ?s1 @ q\<rparr>"
  have r: "\<not> ready ?s" by simp
  have 1: "step ?s dquote = ?s1" using assms r by (simp add: step_open_quote)
  have 2: "foldl step ?s1 q = ?s2"
    using assms r by (intro foldl_step_literal) simp_all
  let ?s3 = "?s\<lparr>argArr := (if buffer ?s @ q \<noteq> [] then argArr ?s @ [buffer ?s @ q] else argArr ?s),
                buffer := [], inQuote := False\<rparr>"
  have 3: "step ?s2 dquote = ?s3"
    using assms r step_close_quote [of ?s2] by simp
  have "scanLoop (pre @ [dquote] @ q @ [dquote] @ rest) =
      foldl step (step (foldl step (step ?s dquote) q) dquote) rest"
    by (simp add: scanLoop_append)
  then have "scanLoop (pre @ [dquote] @ q @ [dquote] @ rest) = foldl step ?s3 rest"
    by (simp only: 1 2 3)
  moreover have "finish (foldl step ?s3 rest) = argArr ?s3 @ tokenize rest"
    using assms r by (intro finish_foldl_clean) simp_all
  ultimately show ?thesis by (simp add: tokenize_def)
qed

section \<open>The log of a check chain, of one command and of the command loop\<close>

lemma call_check_trace:
  "call_check k chk m r = (res, r') \<Longrightarrow> trace r' = trace r @ [CheckCall k m res]"
  by (auto simp add: call_check_def split: prod.splits)

lemma run_checks_append:
  "run_checks k (xs @ ys) m r =
     (case run_checks k xs m r of
        (Inl e, r1) \<Rightarrow> (Inl e, r1)
      | (Inr passed, r1) \<Rightarrow>
          if passed then run_checks (k + length xs) ys m r1 else (Inr False, r1))"
  by (induction xs arbitrary: k r) (auto split: prod.splits sum.splits)

lemma run_checks_events:
  "run_checks k cs m r = (res, r') \<Longrightarrow>
   \<exists>evs. trace r' = trace r @ evs \<and> length evs \<le> length cs \<and>
     (\<forall>j < length evs. \<exists>x. evs ! j = CheckCall (k + j) m x \<and> (Suc j < length evs \<longrightarrow> x = Inr True)) \<and>
     (res = Inr True \<longleftrightarrow> evs = map (\<lambda>j. CheckCall j m (Inr True)) [k..<k + length cs]) \<and>
     (evs \<noteq> [] \<longrightarrow> (\<exists>j. last evs = CheckCall j m res)) \<and>
     (cs \<noteq> [] \<longrightarrow> evs \<noteq> [])"
proof (induction cs arbitrary: k r)
  case Nil
  then show ?case by auto
next
  case (Cons c cs)
  obtain x r1 where cc: "call_check k c m r = (x, r1)" by (cases "call_check k c m r")
  then have tr1: "trace r1 = trace r @ [CheckCall k m x]" by (rule call_check_trace)
  show ?case
  proof (cases "x = Inr True")
    case False
    then have "res = x" "r' = r1" using Cons.prems cc by (auto split: sum.splits if_splits)
    moreover have "[k..<k + length (c # cs)] = k # [Suc k..<Suc k + length cs]"
      by (simp add: upt_conv_Cons del: upt_Suc)
    ultimately show ?thesis using tr1 False
      by (intro exI [of _ "[CheckCall k m x]"]) (simp del: upt_Suc)
  next
    case True
    then have rc: "run_checks (Suc k) cs m r1 = (res, r')" using Cons.prems cc by simp
    from Cons.IH [OF rc] obtain evs where
      evs: "trace r' = trace r1 @ evs" "length evs \<le> length cs"
        "\<forall>j < length evs. \<exists>x. evs ! j = CheckCall (Suc k + j) m x \<and> (Suc j < length evs \<longrightarrow> x = Inr True)"
        "res = Inr True \<longleftrightarrow> evs = map (\<lambda>j. CheckCall j m (Inr True)) [Suc k..<Suc k + length cs]"
        "evs \<noteq> [] \<longrightarrow> (\<exists>j. last evs = CheckCall j m res)"
        "cs \<noteq> [] \<longrightarrow> evs \<noteq> []"
      by blast
    let ?evs = "CheckCall k m x # evs"
    have 1: "trace r' = trace r @ ?evs" using evs(1) tr1 by simp
    have 2: "length ?evs \<le> length (c # cs)" using evs(2) by simp
    have 3: "\<forall>j < length ?evs. \<exists>y. ?evs ! j = CheckCall (k + j) m y \<and> (Suc j < length ?evs \<longrightarrow> y = Inr True)"
    proof (intro allI impI)
      fix j assume "j < length ?evs"
      then show "\<exists>y. ?evs ! j = CheckCall (k + j) m y \<and> (Suc j < length ?evs \<longrightarrow> y = Inr True)"
        using evs(3) True by (cases j) auto
    qed
    have 4: "res = Inr True \<longleftrightarrow> ?evs = map (\<lambda>j. CheckCall j m (Inr True)) [k..<k + length (c # cs)]"
    proof -
      have "[k..<k + length (c # cs)] = k # [Suc k..<Suc k + length cs]"
        by (simp add: upt_conv_Cons del: upt_Suc)
      then show ?thesis using evs(4) True by (simp del: upt_Suc)
    qed
    have 5: "?evs \<noteq> [] \<longrightarrow> (\<exists>j. last ?evs = CheckCall j m res)"
    proof (cases "evs = []")
      case True
      then have "cs = []" using evs(6) by blast
      then have "res = Inr True" using rc by simp
      then show ?thesis using True \<open>x = Inr True\<close> by simp
    next
      case False
      then show ?thesis using evs(5) by simp
    qed
    have 6: "c # cs \<noteq> [] \<longrightarrow> ?evs \<noteq> []" by simp
    show ?thesis
      apply (rule exI [of _ "?evs"])
      apply (intro conjI)
      apply (rule 1)
      apply (rule 2)
      apply (rule 3)
      apply (rule 4)
      apply (rule 5)
      apply (rule 6)
      done
  qed
qed

lemma trace_new_events: "trace r' = trace r @ evs \<Longrightarrow> new_events r r' = evs"
  by (simp add: new_events_def)

lemma invocations_append: "invocations (xs @ ys) = invocations xs @ invocations ys"
  by (induction xs rule: invocations.induct) simp_all

lemma thrown_append: "thrown (xs @ ys) = thrown xs @ thrown ys"
  by (induction xs rule: thrown.induct) simp_all

lemma handled_append: "handled (xs @ ys) = handled xs @ handled ys"
  by (induction xs rule: handled.induct) simp_all

lemma checks_only_observations:
  "\<forall>ev \<in> set evs. is_check_call ev \<Longrightarrow> invocations evs = [] \<and> thrown evs = [] \<and> handled evs = []"
proof (induction evs)
  case Nil then show ?case by simp
next
  case (Cons ev evs)
  then show ?case by (cases ev) simp_all
qed

lemma run_checks_only_checks:
  assumes "run_checks k cs m r = (res, r')"
  shows "\<exists>evs. trace r' = trace r @ evs \<and> (\<forall>ev \<in> set evs. is_check_call ev) \<and>
           (\<forall>ev \<in> set (butlast evs). \<not> check_raised ev) \<and>
           (\<forall>j e. evs \<noteq> [] \<longrightarrow> last evs = CheckCall j m (Inl e) \<longrightarrow> res = Inl e)"
proof -
  from run_checks_events [OF assms] obtain evs where
    evs: "trace r' = trace r @ evs"
      "\<forall>j < length evs. \<exists>x. evs ! j = CheckCall (k + j) m x \<and> (Suc j < length evs \<longrightarrow> x = Inr True)"
      "evs \<noteq> [] \<longrightarrow> (\<exists>j. last evs = CheckCall j m res)"
    by blast
  have a: "\<forall>ev \<in> set evs. is_check_call ev"
  proof
    fix ev assume "ev \<in> set evs"
    then obtain j where "j < length evs" "evs ! j = ev" by (auto simp add: in_set_conv_nth)
    then show "is_check_call ev" using evs(2) by fastforce
  qed
  have b: "\<forall>ev \<in> set (butlast evs). \<not> check_raised ev"
  proof
    fix ev assume "ev \<in> set (butlast evs)"
    then obtain j where j: "j < length (butlast evs)" "butlast evs ! j = ev"
      by (auto simp add: in_set_conv_nth)
    then have sj: "Suc j < length evs" and ej: "evs ! j = ev" by (simp_all add: nth_butlast)
    from sj have "j < length evs" by simp
    with evs(2) obtain x where "evs ! j = CheckCall (k + j) m x" "Suc j < length evs \<longrightarrow> x = Inr True"
      by blast
    with sj ej have "ev = CheckCall (k + j) m (Inr True)" by simp
    then show "\<not> check_raised ev" by simp
  qed
  have c: "\<forall>j e. evs \<noteq> [] \<longrightarrow> last evs = CheckCall j m (Inl e) \<longrightarrow> res = Inl e"
    using evs(3) by auto
  show ?thesis
    apply (rule exI [of _ evs])
    apply (intro conjI)
       apply (rule evs(1))
      apply (rule a)
     apply (rule b)
    apply (rule c)
    done
qed

lemma call_handler_trace:
  "call_handler i c m a r = (res, r') \<Longrightarrow> trace r' = trace r @ [HandlerCall i m a res]"
  by (auto simp add: call_handler_def split: prod.splits)

lemma call_errorHandler_trace:
  "call_errorHandler h m e r = (res, r') \<Longrightarrow> trace r' = trace r @ [ErrorHandlerCall m e res]"
  by (auto simp add: call_errorHandler_def split: prod.splits)

lemma invoke_events:
  assumes "invoke h m a i c r = (res, r')"
  shows "(res = Inr () \<and> trace r' = trace r @ [HandlerCall i m a (Inr ())]) \<or>
         (\<exists>e. trace r' = trace r @ [HandlerCall i m a (Inl e), ErrorHandlerCall m e res])"
proof -
  obtain x r1 where ch: "call_handler i c m a r = (x, r1)" by (cases "call_handler i c m a r")
  then have t1: "trace r1 = trace r @ [HandlerCall i m a x]" by (rule call_handler_trace)
  show ?thesis
  proof (cases x)
    case (Inr u)
    then have "res = Inr ()" "r' = r1" using assms ch by (simp_all add: invoke_def)
    then show ?thesis using t1 Inr by simp
  next
    case (Inl e)
    then have "call_errorHandler h m e r1 = (res, r')" using assms ch by (simp add: invoke_def)
    then have "trace r' = trace r1 @ [ErrorHandlerCall m e res]" by (rule call_errorHandler_trace)
    then show ?thesis using t1 Inl by simp
  qed
qed

lemma loopBody_cases:
  assumes "loopBody h v a m i c r = (res, r')"
  obtains (skip) "Command.name c \<noteq> v" "res = Inr ()" "r' = r"
  | (raised) e where "Command.name c = v" "performChecks c m r = (Inl e, r')" "res = Inl e"
  | (failed) "Command.name c = v" "performChecks c m r = (Inr False, r')" "res = Inr ()"
  | (passed) r1 where "Command.name c = v" "performChecks c m r = (Inr True, r1)"
      "invoke h m a i c r1 = (res, r')"
proof (cases "Command.name c = v")
  case False
  then show ?thesis using assms skip by (simp add: loopBody_def)
next
  case True
  obtain pr r1 where pc: "performChecks c m r = (pr, r1)" by (cases "performChecks c m r")
  show ?thesis
  proof (cases pr)
    case (Inl e)
    then show ?thesis using assms True pc raised by (simp add: loopBody_def)
  next
    case (Inr b)
    then show ?thesis using assms True pc failed passed by (cases b) (simp_all add: loopBody_def)
  qed
qed

lemma check_raised_cases: "check_raised ev \<Longrightarrow> \<exists>k m e. ev = CheckCall k m (Inl e)"
  by (cases ev rule: check_raised.cases) simp_all

lemma stops_at_raise_Nil [simp]: "stops_at_raise res []"
  by (simp add: stops_at_raise_def)

lemma stops_at_raise_no_raise:
  assumes "stops_at_raise (Inr x) evs"
  shows "\<forall>ev \<in> set evs. \<not> check_raised ev"
proof (cases "evs = []")
  case True then show ?thesis by simp
next
  case False
  then have split: "evs = butlast evs @ [last evs]" by simp
  have "\<not> check_raised (last evs)"
  proof
    assume "check_raised (last evs)"
    then obtain k m e where "last evs = CheckCall k m (Inl e)" using check_raised_cases by blast
    then have "Inr x = Inl e" using assms False unfolding stops_at_raise_def by blast
    then show False by simp
  qed
  moreover have "\<forall>ev \<in> set (butlast evs). \<not> check_raised ev"
    using assms unfolding stops_at_raise_def by blast
  ultimately have "\<forall>ev \<in> set (butlast evs @ [last evs]). \<not> check_raised ev" by simp
  then show ?thesis using split by simp
qed

lemma stops_at_raise_append:
  assumes A: "\<forall>ev \<in> set A. \<not> check_raised ev" and B: "stops_at_raise res B"
  shows "stops_at_raise res (A @ B)"
proof (cases "B = []")
  case True
  have "\<forall>k m e. A \<noteq> [] \<longrightarrow> last A \<noteq> CheckCall k m (Inl e)"
  proof (intro allI impI)
    fix k m e assume "A \<noteq> []"
    then have "last A \<in> set A" by simp
    then have "\<not> check_raised (last A)" using A by blast
    then show "last A \<noteq> CheckCall k m (Inl e)" by auto
  qed
  moreover have "\<forall>ev \<in> set (butlast A). \<not> check_raised ev" using A by (meson in_set_butlastD)
  ultimately show ?thesis using True by (simp add: stops_at_raise_def)
next
  case False
  then show ?thesis using A B by (auto simp add: stops_at_raise_def butlast_append)
qed

lemma run_checks_summary:
  assumes "run_checks k cs m r = (res, r')"
  shows "\<exists>evs. trace r' = trace r @ evs \<and> (\<forall>ev \<in> set evs. is_check_call ev) \<and> stops_at_raise res evs"
proof -
  from run_checks_only_checks [OF assms] obtain evs where
    evs: "trace r' = trace r @ evs" "\<forall>ev \<in> set evs. is_check_call ev"
      "\<forall>ev \<in> set (butlast evs). \<not> check_raised ev"
      "\<forall>j e. evs \<noteq> [] \<longrightarrow> last evs = CheckCall j m (Inl e) \<longrightarrow> res = Inl e"
    by blast
  have "\<forall>ev \<in> set evs. \<exists>j x. ev = CheckCall j m x"
  proof -
    from run_checks_events [OF assms] obtain evs' where
      e': "trace r' = trace r @ evs'"
        "\<forall>j < length evs'. \<exists>x. evs' ! j = CheckCall (k + j) m x \<and> (Suc j < length evs' \<longrightarrow> x = Inr True)"
      by blast
    then have "evs' = evs" using evs(1) by simp
    then show ?thesis using e'(2) by (metis in_set_conv_nth)
  qed
  then have "\<forall>j m' e. evs \<noteq> [] \<longrightarrow> last evs = CheckCall j m' (Inl e) \<longrightarrow> res = Inl e"
    using evs(4) by (metis event.inject(1) last_in_set)
  then have "stops_at_raise res evs" using evs(3) by (simp add: stops_at_raise_def)
  then show ?thesis using evs(1,2) by blast
qed

lemma stops_at_raise_Inl:
  "stops_at_raise (Inl e :: 'e + 'a) evs \<Longrightarrow> stops_at_raise (Inl e :: 'e + 'b) evs"
  by (simp add: stops_at_raise_def)

lemma no_raise_stops: "\<forall>ev \<in> set evs. \<not> check_raised ev \<Longrightarrow> stops_at_raise res evs"
  using stops_at_raise_append [of evs res "[]"] by simp

lemma loopBody_events:
  fixes res :: "'e + unit"
  assumes "loopBody h v a m i c r = (res, r')"
  shows "\<exists>cevs ievs. trace r' = trace r @ cevs @ ievs \<and>
           (\<forall>ev \<in> set cevs. is_check_call ev) \<and>
           (ievs = [] \<longrightarrow> stops_at_raise res cevs) \<and>
           (ievs \<noteq> [] \<longrightarrow> (\<forall>ev \<in> set cevs. \<not> check_raised ev)) \<and>
           (ievs = [] \<and> \<not> (Command.name c = v \<and> fst (performChecks c m r) = Inr True) \<or>
            ievs = [HandlerCall i m a (Inr ())] \<and> res = Inr () \<and>
              Command.name c = v \<and> fst (performChecks c m r) = Inr True \<or>
            (\<exists>e. ievs = [HandlerCall i m a (Inl e), ErrorHandlerCall m e res]) \<and>
              Command.name c = v \<and> fst (performChecks c m r) = Inr True)"
  using assms
proof (cases rule: loopBody_cases)
  case skip
  then show ?thesis by (intro exI [of _ "[]"]) simp
next
  case (raised e)
  from run_checks_summary [OF raised(2) [unfolded performChecks_def]]
  obtain evs where evs: "trace r' = trace r @ evs" "\<forall>ev \<in> set evs. is_check_call ev"
    "stops_at_raise (Inl e :: 'e + bool) evs"
    by blast
  from evs(3) have sr: "stops_at_raise res evs" unfolding raised(3) by (rule stops_at_raise_Inl)
  show ?thesis
    apply (rule exI [of _ evs])
    apply (rule exI [of _ "[]"])
    using sr evs(1,2) raised by simp
next
  case failed
  from run_checks_summary [OF failed(2) [unfolded performChecks_def]]
  obtain evs where evs: "trace r' = trace r @ evs" "\<forall>ev \<in> set evs. is_check_call ev"
    "stops_at_raise (Inr False :: 'e + bool) evs"
    by blast
  have sr: "stops_at_raise res evs"
    using stops_at_raise_no_raise [OF evs(3)] by (rule no_raise_stops)
  show ?thesis
    apply (rule exI [of _ evs])
    apply (rule exI [of _ "[]"])
    using sr evs(1,2) failed by simp
next
  case (passed r1)
  from run_checks_summary [OF passed(2) [unfolded performChecks_def]]
  obtain evs where evs: "trace r1 = trace r @ evs" "\<forall>ev \<in> set evs. is_check_call ev"
    "stops_at_raise (Inr True :: 'e + bool) evs"
    by blast
  from evs(3) have nr: "\<forall>ev \<in> set evs. \<not> check_raised ev" by (rule stops_at_raise_no_raise)
  from invoke_events [OF passed(3)] show ?thesis
  proof
    assume ok: "res = Inr () \<and> trace r' = trace r1 @ [HandlerCall i m a (Inr ())]"
    show ?thesis
      apply (rule exI [of _ evs])
      apply (rule exI [of _ "[HandlerCall i m a (Inr ())]"])
      using ok evs(1,2) nr passed by simp
  next
    assume "\<exists>e. trace r' = trace r1 @ [HandlerCall i m a (Inl e), ErrorHandlerCall m e res]"
    then obtain e where thr: "trace r' = trace r1 @ [HandlerCall i m a (Inl e), ErrorHandlerCall m e res]" ..
    show ?thesis
      apply (rule exI [of _ evs])
      apply (rule exI [of _ "[HandlerCall i m a (Inl e), ErrorHandlerCall m e res]"])
      using thr evs(1,2) nr passed by simp
  qed
qed

lemma loopBody_summary:
  assumes "loopBody h v a m i c r = (res, r')"
  shows "\<exists>evs. trace r' = trace r @ evs \<and> handled evs = map (Pair m) (thrown evs) \<and>
           invocations evs =
             (if Command.name c = v \<and> fst (performChecks c m r) = Inr True then [(i, m, a)] else []) \<and>
           stops_at_raise res evs"
proof -
  from loopBody_events [OF assms] obtain cevs ievs where
    t: "trace r' = trace r @ cevs @ ievs"
    and c1: "\<forall>ev \<in> set cevs. is_check_call ev"
    and c2: "ievs = [] \<longrightarrow> stops_at_raise res cevs"
    and c3: "ievs \<noteq> [] \<longrightarrow> (\<forall>ev \<in> set cevs. \<not> check_raised ev)"
    and sh: "ievs = [] \<and> \<not> (Command.name c = v \<and> fst (performChecks c m r) = Inr True) \<or>
            ievs = [HandlerCall i m a (Inr ())] \<and> res = Inr () \<and>
              Command.name c = v \<and> fst (performChecks c m r) = Inr True \<or>
            (\<exists>e. ievs = [HandlerCall i m a (Inl e), ErrorHandlerCall m e res]) \<and>
              Command.name c = v \<and> fst (performChecks c m r) = Inr True"
    by blast
  have obs: "invocations cevs = []" "thrown cevs = []" "handled cevs = []"
    using checks_only_observations [OF c1] by simp_all
  have h: "handled (cevs @ ievs) = map (Pair m) (thrown (cevs @ ievs))"
    using sh obs by (auto simp add: handled_append thrown_append)
  have inv: "invocations (cevs @ ievs) =
      (if Command.name c = v \<and> fst (performChecks c m r) = Inr True then [(i, m, a)] else [])"
    using sh obs by (auto simp add: invocations_append)
  have st: "stops_at_raise res (cevs @ ievs)"
  proof (cases "ievs = []")
    case True
    then show ?thesis using c2 by simp
  next
    case False
    then have "stops_at_raise res ievs" using sh by (auto simp add: stops_at_raise_def)
    then show ?thesis using False c3 by (intro stops_at_raise_append) simp_all
  qed
  show ?thesis
    apply (rule exI [of _ "cevs @ ievs"])
    using t h inv st by simp
qed

lemma commandLoop_append:
  "commandLoop h v a m i (xs @ ys) r =
     (case commandLoop h v a m i xs r of
        (Inl e, r') \<Rightarrow> (Inl e, r')
      | (Inr u, r') \<Rightarrow> commandLoop h v a m (i + length xs) ys r')"
  by (induction xs arbitrary: i r) (auto split: prod.splits sum.splits)

lemma commandLoop_summary:
  assumes "commandLoop h v a m i cs r = (res, r')"
  shows "\<exists>evs. trace r' = trace r @ evs \<and> handled evs = map (Pair m) (thrown evs) \<and>
           (\<forall>x \<in> set (invocations evs). snd x = (m, a)) \<and> stops_at_raise res evs"
  using assms
proof (induction cs arbitrary: i r)
  case Nil
  then show ?case by (intro exI [of _ "[]"]) auto
next
  case (Cons c cs)
  obtain res1 r1 where lb: "loopBody h v a m i c r = (res1, r1)"
    by (cases "loopBody h v a m i c r")
  from loopBody_summary [OF lb] obtain evs1 where
    e1: "trace r1 = trace r @ evs1" "handled evs1 = map (Pair m) (thrown evs1)"
      "invocations evs1 =
         (if Command.name c = v \<and> fst (performChecks c m r) = Inr True then [(i, m, a)] else [])"
      "stops_at_raise res1 evs1"
    by blast
  have inv1: "\<forall>x \<in> set (invocations evs1). snd x = (m, a)" using e1(3) by simp
  show ?case
  proof (cases res1)
    case (Inl e)
    then have "res = Inl e" "r' = r1" using Cons.prems lb by simp_all
    then show ?thesis
      using e1 inv1 Inl by (intro exI [of _ evs1]) simp
  next
    case (Inr u)
    then have "commandLoop h v a m (Suc i) cs r1 = (res, r')" using Cons.prems lb by simp
    from Cons.IH [OF this] obtain evs2 where
      e2: "trace r' = trace r1 @ evs2" "handled evs2 = map (Pair m) (thrown evs2)"
        "\<forall>x \<in> set (invocations evs2). snd x = (m, a)" "stops_at_raise res evs2"
      by blast
    have nr: "\<forall>ev \<in> set evs1. \<not> check_raised ev"
      using e1(4) unfolding Inr by (rule stops_at_raise_no_raise)
    have st: "stops_at_raise res (evs1 @ evs2)" using nr e2(4) by (rule stops_at_raise_append)
    show ?thesis
      apply (rule exI [of _ "evs1 @ evs2"])
      using e1(1,2) e2(1,2,3) inv1 st
      by (auto simp add: handled_append thrown_append invocations_append)
  qed
qed

lemma commandHandler_cases:
  assumes "commandHandler this message r = (res, r')"
  obtains (raised) e where "run_checks 0 (Bot.checks this) message r = (Inl e, r')" "res = Inl e"
  | (blocked) "run_checks 0 (Bot.checks this) message r = (Inr False, r')" "res = Inr ()"
  | (passed) r1 where "run_checks 0 (Bot.checks this) message r = (Inr True, r1)"
      "commandLoop (errorHandler this) (parsed_verb (prefix this) (content message))
         (Bot_parseArgs (content message)) message 0 (commands this) r1 = (res, r')"
proof -
  obtain cres r1 where rc: "run_checks 0 (Bot.checks this) message r = (cres, r1)"
    by (cases "run_checks 0 (Bot.checks this) message r")
  show ?thesis
  proof (cases cres)
    case (Inl e)
    then show ?thesis using assms rc raised by (simp add: commandHandler_def)
  next
    case (Inr b)
    then show ?thesis using assms rc blocked passed by (cases b) (simp_all add: commandHandler_def)
  qed
qed

lemma commandHandler_summary:
  fixes res :: "'e + unit"
  assumes "commandHandler this message r = (res, r')"
  shows "\<exists>evs. trace r' = trace r @ evs \<and> handled evs = map (Pair message) (thrown evs) \<and>
           (\<forall>x \<in> set (invocations evs). snd x = (message, Bot_parseArgs (content message))) \<and>
           stops_at_raise res evs"
  using assms
proof (cases rule: commandHandler_cases)
  case (raised e)
  from run_checks_summary [OF raised(1)] obtain evs where
    evs: "trace r' = trace r @ evs" "\<forall>ev \<in> set evs. is_check_call ev"
      "stops_at_raise (Inl e :: 'e + bool) evs"
    by blast
  have "stops_at_raise res evs" using evs(3) unfolding raised(2) by (rule stops_at_raise_Inl)
  then show ?thesis using evs(1) checks_only_observations [OF evs(2)]
    by (intro exI [of _ evs]) simp
next
  case blocked
  from run_checks_summary [OF blocked(1)] obtain evs where
    evs: "trace r' = trace r @ evs" "\<forall>ev \<in> set evs. is_check_call ev"
      "stops_at_raise (Inr False :: 'e + bool) evs"
    by blast
  have "stops_at_raise res evs"
    using stops_at_raise_no_raise [OF evs(3)] by (rule no_raise_stops)
  then show ?thesis using evs(1) checks_only_observations [OF evs(2)]
    by (intro exI [of _ evs]) simp
next
  case (passed r1)
  from run_checks_summary [OF passed(1)] obtain evs1 where
    e1: "trace r1 = trace r @ evs1" "\<forall>ev \<in> set evs1. is_check_call ev"
      "stops_at_raise (Inr True :: 'e + bool) evs1"
    by blast
  from commandLoop_summary [OF passed(2)] obtain evs2 where
    e2: "trace r' = trace r1 @ evs2" "handled evs2 = map (Pair message) (thrown evs2)"
      "\<forall>x \<in> set (invocations evs2). snd x = (message, Bot_parseArgs (content message))"
      "stops_at_raise res evs2"
    by blast
  have st: "stops_at_raise res (evs1 @ evs2)"
    using stops_at_raise_no_raise [OF e1(3)] e2(4) by (rule stops_at_raise_append)
  show ?thesis
    apply (rule exI [of _ "evs1 @ evs2"])
    using e1(1) e2(1,2,3) st checks_only_observations [OF e1(2)]
    by (simp add: handled_append thrown_append invocations_append)
qed

lemma commandHandler_not_passed:
  assumes "run_checks 0 (Bot.checks this) message r = (cres, r1)" and "cres \<noteq> Inr True"
  shows "commandHandler this message r = ((case cres of Inl e \<Rightarrow> Inl e | Inr b \<Rightarrow> Inr ()), r1) \<and>
         invocations (new_events r r1) = [] \<and> handled (new_events r r1) = [] \<and>
         thrown (new_events r r1) = []"
proof -
  from run_checks_summary [OF assms(1)] obtain evs where
    evs: "trace r1 = trace r @ evs" "\<forall>ev \<in> set evs. is_check_call ev"
    by blast
  have ne: "new_events r r1 = evs" using evs(1) by (rule trace_new_events)
  have "commandHandler this message r = ((case cres of Inl e \<Rightarrow> Inl e | Inr b \<Rightarrow> Inr ()), r1)"
    using assms by (cases cres) (auto simp add: commandHandler_def)
  then show ?thesis using checks_only_observations [OF evs(2)] ne by simp
qed





section \<open>The claims\<close>

text \<open>Unfolding sets for evaluating the model on concrete inputs.\<close>

lemmas tok_defs = tokenize_def scanLoop_def finish_def step_def flush_def classify_def scan_init_def

lemmas ex_defs = run0_def ping_message_def returnsTrue_def returnsFalse_def neverCalled_def
  isGuildOwner_def quietErrorHandler_def ping_fn_def boom_fn_def ping_command_def boom_command_def
  guarded_command_def pong_command_def three_checks_command_def two_ping_bot_def boom_first_bot_def
  quiet_bot_def closed_bot_def owner_only_bot_def guarded_bot_def defaultErrorHandler_def
  boom_middle_bot_def

lemmas run_defs = commandHandler_def loopBody_def invoke_def performChecks_def call_check_def
  call_handler_def call_errorHandler_def parsed_verb_def Bot_parseArgs_def new_events_def
  loop_until_def Let_def

subsection \<open>C1: splitting on spaces, quoted regions\<close>

text \<open>
  Claim C1. The tokenizer splits on spaces outside quotes and keeps a double-quoted region as
  one token with its embedded spaces. The two examples of the specification evaluate as stated.
  For every input, at every state the scan reaches with no escape pending (\<open>pre\<close> is what
  has been read so far):
  \<^item> a space outside quotes pushes the non-empty buffer, empties it and is not appended, so
    that the tokens of \<open>pre\<close>, a space and \<open>rest\<close> are the tokens of \<open>pre\<close> followed by
    the tokens of \<open>rest\<close>;
  \<^item> a space inside quotes is appended to the buffer and pushes nothing;
  \<^item> an opening quote changes nothing but the quoting flag, so it does not flush;
  \<^item> a closing quote pushes the non-empty buffer and empties it, with or without a space
    after it;
  \<^item> any character other than double quote, space and backslash is appended;
  \<^item> a quoted region \<open>q\<close> (no double quote, no backslash) that starts outside quotes adds
    the one token made of the buffer and \<open>q\<close>, spaces included, whatever follows.

  Two corollaries at the start of the input: without double quote and backslash the tokens are
  the non-empty pieces between spaces, and a quoted region glued to a plain prefix \<open>p\<close> is
  the single token \<open>p @ q\<close>. What a pending escape and a backslash do is claim C2.
\<close>

theorem tokenize_splits_outside_quotes:
  "tokenize ''a b c'' = [''a'', ''b'', ''c''] \<and>
   tokenize (''a '' @ [dquote] @ ''b c'' @ [dquote] @ '' d'') = [''a'', ''b c'', ''d''] \<and>
   (dquote \<notin> set s \<and> backslash \<notin> set s \<longrightarrow>
      tokenize s = filter (\<lambda>w. w \<noteq> []) (split_sp s)) \<and>
   (CHR '' '' \<notin> set p \<and> dquote \<notin> set p \<and> backslash \<notin> set p \<and>
    dquote \<notin> set q \<and> backslash \<notin> set q \<and> p @ q \<noteq> [] \<longrightarrow>
      tokenize (p @ [dquote] @ q @ [dquote] @ rest) = (p @ q) # tokenize rest) \<and>
   (inQuote (scanLoop pre) \<and> \<not> escaped (scanLoop pre) \<longrightarrow>
      scanLoop (pre @ [dquote]) =
        (scanLoop pre)\<lparr>argArr := (if buffer (scanLoop pre) \<noteq> []
                                    then argArr (scanLoop pre) @ [buffer (scanLoop pre)]
                                    else argArr (scanLoop pre)),
                        buffer := [], inQuote := False\<rparr>) \<and>
   (\<not> inQuote (scanLoop pre) \<and> \<not> escaped (scanLoop pre) \<longrightarrow>
      scanLoop (pre @ [dquote]) = (scanLoop pre)\<lparr>inQuote := True\<rparr>) \<and>
   (\<not> inQuote (scanLoop pre) \<and> \<not> escaped (scanLoop pre) \<longrightarrow>
      scanLoop (pre @ '' '') =
        (scanLoop pre)\<lparr>argArr := (if buffer (scanLoop pre) \<noteq> []
                                    then argArr (scanLoop pre) @ [buffer (scanLoop pre)]
                                    else argArr (scanLoop pre)),
                        buffer := []\<rparr> \<and>
      tokenize (pre @ '' '' @ rest) = tokenize pre @ tokenize rest) \<and>
   (inQuote (scanLoop pre) \<and> \<not> escaped (scanLoop pre) \<longrightarrow>
      scanLoop (pre @ '' '') = (scanLoop pre)\<lparr>buffer := buffer (scanLoop pre) @ '' ''\<rparr>) \<and>
   (\<not> escaped (scanLoop pre) \<and> c \<noteq> dquote \<and> c \<noteq> CHR '' '' \<and> c \<noteq> backslash \<longrightarrow>
      scanLoop (pre @ [c]) = (scanLoop pre)\<lparr>buffer := buffer (scanLoop pre) @ [c]\<rparr>) \<and>
   (\<not> inQuote (scanLoop pre) \<and> \<not> escaped (scanLoop pre) \<and>
    dquote \<notin> set q \<and> backslash \<notin> set q \<longrightarrow>
      tokenize (pre @ [dquote] @ q @ [dquote] @ rest) =
        argArr (scanLoop pre) @
        (if buffer (scanLoop pre) @ q \<noteq> [] then [buffer (scanLoop pre) @ q] else []) @
        tokenize rest)"
proof (intro conjI impI)
  show "tokenize ''a b c'' = [''a'', ''b'', ''c'']"
    by (simp add: tok_defs)
  show "tokenize (''a '' @ [dquote] @ ''b c'' @ [dquote] @ '' d'') = [''a'', ''b c'', ''d'']"
    by (simp add: tok_defs)
  show "tokenize s = filter (\<lambda>w. w \<noteq> []) (split_sp s)"
    if "dquote \<notin> set s \<and> backslash \<notin> set s"
    using that by (simp add: tokenize_plain)
  show "tokenize (p @ [dquote] @ q @ [dquote] @ rest) = (p @ q) # tokenize rest"
    if "CHR '' '' \<notin> set p \<and> dquote \<notin> set p \<and> backslash \<notin> set p \<and>
        dquote \<notin> set q \<and> backslash \<notin> set q \<and> p @ q \<noteq> []"
    using that by (intro tokenize_quoted_region) simp_all
  show "scanLoop (pre @ [dquote]) =
        (scanLoop pre)\<lparr>argArr := (if buffer (scanLoop pre) \<noteq> []
                                    then argArr (scanLoop pre) @ [buffer (scanLoop pre)]
                                    else argArr (scanLoop pre)),
                        buffer := [], inQuote := False\<rparr>"
    if "inQuote (scanLoop pre) \<and> \<not> escaped (scanLoop pre)"
    using that by (simp add: scanLoop_snoc step_close_quote)
  show "scanLoop (pre @ [dquote]) = (scanLoop pre)\<lparr>inQuote := True\<rparr>"
    if "\<not> inQuote (scanLoop pre) \<and> \<not> escaped (scanLoop pre)"
    using that by (simp add: scanLoop_snoc step_open_quote)
  show "scanLoop (pre @ '' '') =
        (scanLoop pre)\<lparr>argArr := (if buffer (scanLoop pre) \<noteq> []
                                    then argArr (scanLoop pre) @ [buffer (scanLoop pre)]
                                    else argArr (scanLoop pre)),
                        buffer := []\<rparr>"
    if "\<not> inQuote (scanLoop pre) \<and> \<not> escaped (scanLoop pre)"
    using that by (intro scanLoop_space_outside) simp_all
  show "tokenize (pre @ '' '' @ rest) = tokenize pre @ tokenize rest"
    if "\<not> inQuote (scanLoop pre) \<and> \<not> escaped (scanLoop pre)"
    using that by (intro tokenize_space_outside) simp_all
  show "scanLoop (pre @ '' '') = (scanLoop pre)\<lparr>buffer := buffer (scanLoop pre) @ '' ''\<rparr>"
    if "inQuote (scanLoop pre) \<and> \<not> escaped (scanLoop pre)"
    using that by (intro scanLoop_literal) simp_all
  show "scanLoop (pre @ [c]) = (scanLoop pre)\<lparr>buffer := buffer (scanLoop pre) @ [c]\<rparr>"
    if "\<not> escaped (scanLoop pre) \<and> c \<noteq> dquote \<and> c \<noteq> CHR '' '' \<and> c \<noteq> backslash"
    using that by (intro scanLoop_literal) simp_all
  show "tokenize (pre @ [dquote] @ q @ [dquote] @ rest) =
        argArr (scanLoop pre) @
        (if buffer (scanLoop pre) @ q \<noteq> [] then [buffer (scanLoop pre) @ q] else []) @
        tokenize rest"
    if "\<not> inQuote (scanLoop pre) \<and> \<not> escaped (scanLoop pre) \<and>
        dquote \<notin> set q \<and> backslash \<notin> set q"
    using that by (intro tokenize_quoted_anywhere) simp_all
qed

text \<open>
  The theorem at concrete inputs: a remainder with a double space; a quoted region between
  \<^verbatim>\<open>x\<close> and \<^verbatim>\<open>d\<close> without spaces around it; a closing and an opening quote;
  a space after a token that holds an escaped space; a space inside quotes; and the
  specification's second example, obtained from the rule for a quoted region after the prefix
  \<^verbatim>\<open>a\<close> and a space.
\<close>

theorem tokenize_splits_outside_quotes_witness:
  "dquote \<notin> set ''a  b'' \<and> backslash \<notin> set ''a  b'' \<and>
   tokenize ''a  b'' = [''a'', ''b''] \<and>
   tokenize (''x'' @ [dquote] @ ''b c'' @ [dquote] @ ''d'') = [''xb c'', ''d''] \<and>
   argArr (scanLoop (dquote # ''b c'' @ [dquote])) = [''b c''] \<and>
   buffer (scanLoop (''x'' @ [dquote])) = ''x'' \<and> argArr (scanLoop (''x'' @ [dquote])) = [] \<and>
   \<not> inQuote (scanLoop (''a'' @ [backslash] @ '' b'')) \<and>
   \<not> escaped (scanLoop (''a'' @ [backslash] @ '' b'')) \<and>
   tokenize ((''a'' @ [backslash] @ '' b'') @ '' '' @ ''c'') = [''a b'', ''c''] \<and>
   argArr (scanLoop ((''a'' @ [backslash] @ '' b'') @ '' '')) = [''a b''] \<and>
   buffer (scanLoop ((dquote # ''b'') @ '' '')) = ''b '' \<and>
   buffer (scanLoop (''x'' @ ''y'')) = ''xy'' \<and>
   tokenize (''a '' @ [dquote] @ ''b c'' @ [dquote] @ '' d'') = [''a''] @ [''b c''] @ [''d'']"
proof -
  note inst = tokenize_splits_outside_quotes [of "''a  b''" "''x''" "''b c''" "''d''" "dquote # ''b c''"]
  have plain: "dquote \<notin> set ''a  b'' \<and> backslash \<notin> set ''a  b''" by simp
  have 1: "tokenize ''a  b'' = filter (\<lambda>w. w \<noteq> []) (split_sp ''a  b'')"
    using inst plain by blast
  have 2: "tokenize (''x'' @ [dquote] @ ''b c'' @ [dquote] @ ''d'') = (''x'' @ ''b c'') # tokenize ''d''"
    using inst by simp
  have st: "inQuote (scanLoop (dquote # ''b c'')) \<and> \<not> escaped (scanLoop (dquote # ''b c''))"
    by (simp add: tok_defs)
  have 3: "scanLoop ((dquote # ''b c'') @ [dquote]) =
        (scanLoop (dquote # ''b c''))\<lparr>argArr := (if buffer (scanLoop (dquote # ''b c'')) \<noteq> []
                                    then argArr (scanLoop (dquote # ''b c'')) @ [buffer (scanLoop (dquote # ''b c''))]
                                    else argArr (scanLoop (dquote # ''b c''))),
                        buffer := [], inQuote := False\<rparr>"
    using inst st by blast
  have st2: "\<not> inQuote (scanLoop ''x'') \<and> \<not> escaped (scanLoop ''x'')"
    by (simp add: tok_defs)
  have 4: "scanLoop (''x'' @ [dquote]) = (scanLoop ''x'')\<lparr>inQuote := True\<rparr>"
    using tokenize_splits_outside_quotes [where pre = "''x''"] st2 by blast
  have st3: "\<not> inQuote (scanLoop (''a'' @ [backslash] @ '' b'')) \<and>
      \<not> escaped (scanLoop (''a'' @ [backslash] @ '' b''))"
    by (simp add: tok_defs)
  have 5: "scanLoop ((''a'' @ [backslash] @ '' b'') @ '' '') =
        (scanLoop (''a'' @ [backslash] @ '' b''))
          \<lparr>argArr := (if buffer (scanLoop (''a'' @ [backslash] @ '' b'')) \<noteq> []
                      then argArr (scanLoop (''a'' @ [backslash] @ '' b'')) @
                           [buffer (scanLoop (''a'' @ [backslash] @ '' b''))]
                      else argArr (scanLoop (''a'' @ [backslash] @ '' b''))),
           buffer := []\<rparr> \<and>
      tokenize ((''a'' @ [backslash] @ '' b'') @ '' '' @ ''c'') =
        tokenize (''a'' @ [backslash] @ '' b'') @ tokenize ''c''"
    using tokenize_splits_outside_quotes
      [where pre = "''a'' @ [backslash] @ '' b''" and rest = "''c''"] st3
    by blast
  have st4: "inQuote (scanLoop (dquote # ''b'')) \<and> \<not> escaped (scanLoop (dquote # ''b''))"
    by (simp add: tok_defs)
  have 6: "scanLoop ((dquote # ''b'') @ '' '') =
      (scanLoop (dquote # ''b''))\<lparr>buffer := buffer (scanLoop (dquote # ''b'')) @ '' ''\<rparr>"
    using tokenize_splits_outside_quotes [where pre = "dquote # ''b''"] st4 by blast
  have 7: "scanLoop (''x'' @ ''y'') = (scanLoop ''x'')\<lparr>buffer := buffer (scanLoop ''x'') @ ''y''\<rparr>"
    using tokenize_splits_outside_quotes [where pre = "''x''" and c = "CHR ''y''"] st2 by simp
  have st5: "\<not> inQuote (scanLoop ''a '') \<and> \<not> escaped (scanLoop ''a '') \<and>
      dquote \<notin> set ''b c'' \<and> backslash \<notin> set ''b c''"
    by (simp add: tok_defs)
  have 8: "tokenize (''a '' @ [dquote] @ ''b c'' @ [dquote] @ '' d'') =
        argArr (scanLoop ''a '') @
        (if buffer (scanLoop ''a '') @ ''b c'' \<noteq> [] then [buffer (scanLoop ''a '') @ ''b c''] else []) @
        tokenize '' d''"
    using tokenize_splits_outside_quotes
      [where pre = "''a ''" and q = "''b c''" and rest = "'' d''"] st5
    by blast
  have v: "buffer (scanLoop (dquote # ''b c'')) = ''b c''" "argArr (scanLoop (dquote # ''b c'')) = []"
    "buffer (scanLoop ''x'') = ''x''" "argArr (scanLoop ''x'') = []" "tokenize ''d'' = [''d'']"
    "buffer (scanLoop (''a'' @ [backslash] @ '' b'')) = ''a b''"
    "argArr (scanLoop (''a'' @ [backslash] @ '' b'')) = []"
    "tokenize (''a'' @ [backslash] @ '' b'') = [''a b'']" "tokenize ''c'' = [''c'']"
    "buffer (scanLoop (dquote # ''b'')) = ''b''"
    "argArr (scanLoop ''a '') = [''a'']" "buffer (scanLoop ''a '') = []" "tokenize '' d'' = [''d'']"
    by (simp_all add: tok_defs)
  have k5: "tokenize ((''a'' @ [backslash] @ '' b'') @ '' '' @ ''c'') = [''a b'', ''c'']"
    "argArr (scanLoop ((''a'' @ [backslash] @ '' b'') @ '' '')) = [''a b'']"
    using 5 v by simp_all
  have k6: "buffer (scanLoop ((dquote # ''b'') @ '' '')) = ''b ''" using 6 v by simp
  have k7: "buffer (scanLoop (''x'' @ ''y'')) = ''xy''" using 7 v by simp
  have k8: "tokenize (''a '' @ [dquote] @ ''b c'' @ [dquote] @ '' d'') = [''a''] @ [''b c''] @ [''d'']"
    using 8 v by simp
  have k1: "tokenize ''a  b'' = [''a'', ''b'']" using 1 by simp
  have k2: "tokenize (''x'' @ [dquote] @ ''b c'' @ [dquote] @ ''d'') = [''xb c'', ''d'']"
    using 2 v by simp
  have k3: "argArr (scanLoop (dquote # ''b c'' @ [dquote])) = [''b c'']" using 3 v by simp
  have k4: "buffer (scanLoop (''x'' @ [dquote])) = ''x''" "argArr (scanLoop (''x'' @ [dquote])) = []"
    using 4 v by simp_all
  show ?thesis
    using plain k1 k2 k3 k4 st3 k5 k6 k7 k8 by blast
qed

subsection \<open>C2: the backslash escape\<close>

text \<open>
  Claim C2. A character that follows an unconsumed backslash is appended to the current token
  literally, whatever it is (double quote, space and backslash included), and the escape is
  consumed; the backslash that announced it is not appended: after \<open>s\<close>, the two
  characters backslash and \<open>c\<close> add exactly \<open>c\<close> to the buffer and change nothing
  else. The two examples of the specification evaluate as stated. A backslash at the end of the
  input that escapes nothing only sets the flag: the tokens are those of the input without it.
\<close>

theorem escape_appends_next_character_literally:
  "(escaped (scanLoop s) \<longrightarrow>
      scanLoop (s @ [c]) = (scanLoop s)\<lparr>buffer := buffer (scanLoop s) @ [c], escaped := False\<rparr>) \<and>
   (\<not> escaped (scanLoop s) \<longrightarrow>
      scanLoop (s @ [backslash, c]) = (scanLoop s)\<lparr>buffer := buffer (scanLoop s) @ [c]\<rparr>) \<and>
   tokenize (''a'' @ [backslash] @ '' b'') = [''a b''] \<and>
   tokenize ([backslash, dquote] @ ''quoted'' @ [backslash, dquote]) = [[dquote] @ ''quoted'' @ [dquote]] \<and>
   (\<not> escaped (scanLoop s) \<longrightarrow>
      scanLoop (s @ [backslash]) = (scanLoop s)\<lparr>escaped := True\<rparr> \<and>
      tokenize (s @ [backslash]) = tokenize s)"
proof (intro conjI impI)
  show "scanLoop (s @ [c]) = (scanLoop s)\<lparr>buffer := buffer (scanLoop s) @ [c], escaped := False\<rparr>"
    if "escaped (scanLoop s)"
    using that scanLoop_ready [of s]
    by (simp add: scanLoop_snoc step_def flush_def classify_def)
  show "scanLoop (s @ [backslash, c]) = (scanLoop s)\<lparr>buffer := buffer (scanLoop s) @ [c]\<rparr>"
    if "\<not> escaped (scanLoop s)"
    using that by (rule scanLoop_escape_pair)
  show "tokenize (''a'' @ [backslash] @ '' b'') = [''a b'']"
    by (simp add: tok_defs)
  show "tokenize ([backslash, dquote] @ ''quoted'' @ [backslash, dquote]) = [[dquote] @ ''quoted'' @ [dquote]]"
    by (simp add: tok_defs)
  show "scanLoop (s @ [backslash]) = (scanLoop s)\<lparr>escaped := True\<rparr>"
    if "\<not> escaped (scanLoop s)"
    using that by (simp add: scanLoop_snoc step_backslash)
  show "tokenize (s @ [backslash]) = tokenize s"
    if "\<not> escaped (scanLoop s)"
    using that by (rule tokenize_trailing_backslash)
qed

text \<open>
  The theorem at concrete inputs: an escaped space after \<^verbatim>\<open>ab\<close>, an escaped
  backslash, and \<^verbatim>\<open>ab\<close> followed by one unmatched backslash.
\<close>

theorem escape_appends_next_character_literally_witness:
  "\<not> escaped (scanLoop ''ab'') \<and> escaped (scanLoop (''ab'' @ [backslash])) \<and>
   buffer (scanLoop (''ab'' @ [backslash, CHR '' ''])) = ''ab '' \<and>
   buffer (scanLoop ((''ab'' @ [backslash]) @ [backslash])) = ''ab'' @ [backslash] \<and>
   tokenize (''ab'' @ [backslash]) = [''ab'']"
proof -
  have ne: "\<not> escaped (scanLoop ''ab'')" by (simp add: tok_defs)
  have e: "escaped (scanLoop (''ab'' @ [backslash]))" by (simp add: tok_defs)
  have 1: "scanLoop (''ab'' @ [backslash, CHR '' '']) = (scanLoop ''ab'')\<lparr>buffer := buffer (scanLoop ''ab'') @ '' ''\<rparr>"
    using escape_appends_next_character_literally [of "''ab''" "CHR '' ''"] ne by blast
  have 2: "scanLoop ((''ab'' @ [backslash]) @ [backslash]) =
      (scanLoop (''ab'' @ [backslash]))\<lparr>buffer := buffer (scanLoop (''ab'' @ [backslash])) @ [backslash], escaped := False\<rparr>"
    using escape_appends_next_character_literally [of "''ab'' @ [backslash]" backslash] e by blast
  have 3: "tokenize (''ab'' @ [backslash]) = tokenize ''ab''"
    using escape_appends_next_character_literally [of "''ab''" "CHR '' ''"] ne by blast
  have v: "buffer (scanLoop ''ab'') = ''ab''" "buffer (scanLoop (''ab'' @ [backslash])) = ''ab''"
    "tokenize ''ab'' = [''ab'']"
    by (simp_all add: tok_defs)
  show ?thesis using ne e 1 2 3 v by simp
qed

subsection \<open>C3: the usage string derived from the handler\<close>

text \<open>
  Claim C3 says that a command built without a usage string gets the handler's parameter
  names without the first one, so that a handler declared with \<^verbatim>\<open>(msg, arg1)\<close>
  yields \<^verbatim>\<open>arg1\<close>. The code ends in \<^verbatim>\<open>args.slice(1)\<close> on the string
  \<^verbatim>\<open>msg arg1\<close>, which drops one character, not one parameter: the usage is
  \<^verbatim>\<open>sg arg1\<close>, where the derivation the claim describes gives
  \<^verbatim>\<open>arg1\<close>. The input is the second command of the repository's example
  script: the handler \<^verbatim>\<open>hidden\<close>, the name \<^verbatim>\<open>specialCommand\<close> and an
  empty usage. Only spaces are removed from the parameter text, so a line break between two
  parameters stays.
\<close>

theorem derived_usage_drops_one_character:
  "Command_parseArgs hidden_fn = ''sg arg1'' \<and>
   usage_by_spec hidden_fn = ''arg1'' \<and>
   Command_new (Some hidden_fn) (Some ''specialCommand'') (Some []) (Some []) =
     Inr \<lparr>Command.name = ''specialCommand'', usage = ''sg arg1'', Command.checks = [],
          commandFunction = hidden_fn\<rparr> \<and>
   Command_parseArgs multiline_fn = ''sg '' @ [CHR 0x0A] @ ''arg1'' \<and>
   usage_by_spec multiline_fn = ''arg1''"
  by (simp add: Command_new_def Command_parseArgs_def usage_by_spec_def is_whitespace_def
      hidden_fn_def hidden_source_def multiline_fn_def slice_def)

subsection \<open>C4: handler errors go to the error handler, a failed global check is silent\<close>



subsection \<open>C5: errors thrown by checks are not caught\<close>

text \<open>
  Claim C5. An error thrown by a global check is the outcome of the dispatch, with no handler
  and no error handler called. An error thrown by a check of a command whose name matches is
  the outcome of the loop over the registry, whatever commands come after it (\<open>post\<close>),
  again with no handler and no error handler called from that command on. For every dispatch:
  a check that threw can only be the last event of the log, and then its error is the outcome
  of the dispatch; so nothing is called after it, the error handler included.
\<close>

theorem check_errors_propagate_uncaught:
  fixes this :: "('x message_scheme, 'e, 'w) Bot" and e :: 'e
  shows
  "(fst (run_checks 0 (Bot.checks this) message r) = Inl e \<longrightarrow>
      commandHandler this message r = (Inl e, snd (run_checks 0 (Bot.checks this) message r)) \<and>
      invocations (new_events r (snd (commandHandler this message r))) = [] \<and>
      handled (new_events r (snd (commandHandler this message r))) = []) \<and>
   (commandLoop handler verb args message i pre r = (Inr (), r1) \<and> Command.name command = verb \<and>
    performChecks command message r1 = (Inl e, r2) \<longrightarrow>
      commandLoop handler verb args message i (pre @ command # post) r = (Inl e, r2) \<and>
      invocations (new_events r1 r2) = [] \<and> handled (new_events r1 r2) = []) \<and>
   (\<forall>ev \<in> set (butlast (new_events r (snd (commandHandler this message r)))). \<not> check_raised ev) \<and>
   (new_events r (snd (commandHandler this message r)) \<noteq> [] \<and>
    last (new_events r (snd (commandHandler this message r))) = CheckCall k m (Inl e) \<longrightarrow>
      fst (commandHandler this message r) = Inl e)"
proof (intro conjI impI)
  assume f: "fst (run_checks 0 (Bot.checks this) message r) = Inl e"
  obtain r1 where rc: "run_checks 0 (Bot.checks this) message r = (Inl e, r1)"
    using f by (cases "run_checks 0 (Bot.checks this) message r") simp
  from commandHandler_not_passed [OF rc]
  have np: "commandHandler this message r = (Inl e, r1)"
    "invocations (new_events r r1) = []" "handled (new_events r r1) = []"
    by simp_all
  show "commandHandler this message r = (Inl e, snd (run_checks 0 (Bot.checks this) message r))"
    using np(1) rc by simp
  show "invocations (new_events r (snd (commandHandler this message r))) = []"
    using np by simp
  show "handled (new_events r (snd (commandHandler this message r))) = []"
    using np by simp
next
  assume a: "commandLoop handler verb args message i pre r = (Inr (), r1) \<and> Command.name command = verb \<and>
    performChecks command message r1 = (Inl e, r2)"
  then have lb: "loopBody handler verb args message (i + length pre) command r1 = (Inl e, r2)"
    by (simp add: loopBody_def)
  show "commandLoop handler verb args message i (pre @ command # post) r = (Inl e, r2)"
    using a lb by (simp add: commandLoop_append)
  from a have "run_checks 0 (Command.checks command) message r1 = (Inl e, r2)"
    by (simp add: performChecks_def)
  from run_checks_summary [OF this] obtain evs where
    evs: "trace r2 = trace r1 @ evs" "\<forall>ev \<in> set evs. is_check_call ev"
    by blast
  have ne: "new_events r1 r2 = evs" using evs(1) by (rule trace_new_events)
  show "invocations (new_events r1 r2) = []"
    using checks_only_observations [OF evs(2)] ne by simp
  show "handled (new_events r1 r2) = []"
    using checks_only_observations [OF evs(2)] ne by simp
next
  obtain res r' where ch: "commandHandler this message r = (res, r')"
    by (cases "commandHandler this message r")
  from commandHandler_summary [OF ch] obtain evs where
    evs: "trace r' = trace r @ evs" "stops_at_raise res evs"
    by blast
  have ne: "new_events r (snd (commandHandler this message r)) = evs"
    using evs(1) ch by (simp add: trace_new_events)
  show "\<forall>ev \<in> set (butlast (new_events r (snd (commandHandler this message r)))). \<not> check_raised ev"
    using evs(2) unfolding ne stops_at_raise_def by blast
  show "fst (commandHandler this message r) = Inl e"
    if "new_events r (snd (commandHandler this message r)) \<noteq> [] \<and>
        last (new_events r (snd (commandHandler this message r))) = CheckCall k m (Inl e)"
    using that evs(2) ch unfolding ne stops_at_raise_def by auto
qed

text \<open>
  The theorem at concrete inputs: a bot whose global check throws, and a registry whose second
  command has a check that throws, between two commands that would run.
\<close>

theorem check_errors_propagate_uncaught_witness:
  "fst (run_checks 0 (Bot.checks owner_only_bot) ping_message run0) = Inl ''PermissionError'' \<and>
   commandHandler owner_only_bot ping_message run0 =
     (Inl ''PermissionError'', \<lparr>world = 0, trace = [CheckCall 0 ping_message (Inl ''PermissionError'')]\<rparr>) \<and>
   commandLoop quietErrorHandler ''ping'' [''a'', ''b''] ping_message 0 [ping_command] run0 =
     (Inr (), \<lparr>world = 10, trace = [HandlerCall 0 ping_message [''a'', ''b''] (Inr ())]\<rparr>) \<and>
   commandLoop quietErrorHandler ''ping'' [''a'', ''b''] ping_message 0
       ([ping_command] @ guarded_command # [ping_command]) run0 =
     (Inl ''PermissionError'',
      \<lparr>world = 10, trace = [HandlerCall 0 ping_message [''a'', ''b''] (Inr ()),
                           CheckCall 0 ping_message (Inl ''PermissionError'')]\<rparr>) \<and>
   last (new_events run0 (snd (commandHandler guarded_bot ping_message run0))) =
     CheckCall 0 ping_message (Inl ''PermissionError'') \<and>
   fst (commandHandler guarded_bot ping_message run0) = Inl ''PermissionError''"
proof -
  let ?r1 = "\<lparr>world = 10, trace = [HandlerCall 0 ping_message [''a'', ''b''] (Inr ())]\<rparr> :: (message, string, nat) run"
  let ?r2 = "\<lparr>world = 10, trace = [HandlerCall 0 ping_message [''a'', ''b''] (Inr ()),
                           CheckCall 0 ping_message (Inl ''PermissionError'')]\<rparr> :: (message, string, nat) run"
  have h1: "fst (run_checks 0 (Bot.checks owner_only_bot) ping_message run0) = Inl ''PermissionError''"
    by (simp add: ex_defs run_defs)
  have c1: "commandHandler owner_only_bot ping_message run0 =
      (Inl ''PermissionError'', snd (run_checks 0 (Bot.checks owner_only_bot) ping_message run0))"
    using check_errors_propagate_uncaught
      [where this = owner_only_bot and message = ping_message and r = run0 and e = "''PermissionError''"] h1
    by blast
  have v1: "snd (run_checks 0 (Bot.checks owner_only_bot) ping_message run0) =
      \<lparr>world = 0, trace = [CheckCall 0 ping_message (Inl ''PermissionError'')]\<rparr>"
    by (simp add: ex_defs run_defs)
  have h2: "commandLoop quietErrorHandler ''ping'' [''a'', ''b''] ping_message 0 [ping_command] run0 = (Inr (), ?r1)"
    by (simp add: ex_defs run_defs)
  have h3: "Command.name guarded_command = ''ping''" by (simp add: guarded_command_def)
  have h4: "performChecks guarded_command ping_message ?r1 = (Inl ''PermissionError'', ?r2)"
    by (simp add: ex_defs run_defs)
  have c2: "commandLoop quietErrorHandler ''ping'' [''a'', ''b''] ping_message 0
       ([ping_command] @ guarded_command # [ping_command]) run0 = (Inl ''PermissionError'', ?r2)"
    using check_errors_propagate_uncaught
      [where handler = quietErrorHandler and verb = "''ping''" and args = "[''a'', ''b'']"
         and message = ping_message and i = 0 and pre = "[ping_command]" and r = run0 and ?r1.0 = ?r1
         and command = guarded_command and e = "''PermissionError''" and ?r2.0 = ?r2
         and post = "[ping_command]" and this = guarded_bot]
      h2 h3 h4
    by blast
  have h5: "new_events run0 (snd (commandHandler guarded_bot ping_message run0)) \<noteq> [] \<and>
      last (new_events run0 (snd (commandHandler guarded_bot ping_message run0))) =
        CheckCall 0 ping_message (Inl ''PermissionError'')"
    by (simp add: ex_defs run_defs tok_defs)
  have c3: "fst (commandHandler guarded_bot ping_message run0) = Inl ''PermissionError''"
    using check_errors_propagate_uncaught
      [where this = guarded_bot and message = ping_message and r = run0 and e = "''PermissionError''"
         and k = 0 and m = ping_message] h5
    by blast
  show ?thesis
    using h1 c1 h2 c2 h5 c3 unfolding v1 by blast
qed

subsection \<open>C6: every matching command is invoked\<close>




subsection \<open>C7: the check chain is ordered and short-circuits\<close>

text \<open>
  Claim C7. \<^verbatim>\<open>addCheck\<close> appends, so the list order is the registration order.
  \<^verbatim>\<open>performChecks\<close> returns true on an empty check list without calling anything. When the checks before a check all return true and that check returns false, the
  result is false and the log ends with that call, whatever checks come after it (\<open>post\<close>):
  they are not called. The result is true exactly when every check of the list was called, in
  order, and returned true. In every case the calls are those of the checks at positions
  \<open>0, 1, 2, ...\<close> in this order, at most one per check, and every call but the last returned
  true.
\<close>

theorem performChecks_ordered_short_circuit:
  fixes this :: "('m, 'e, 'w) Command"
  shows
  "Command.checks (Command_addCheck chk this) = Command.checks this @ chk \<and>
   (Command.checks this = [] \<longrightarrow> performChecks this message r = (Inr True, r)) \<and>
   (Command.checks this = pre @ check # post \<and> run_checks 0 pre message r = (Inr True, r1) \<and>
    check message (world r1) = (Inr False, w) \<longrightarrow>
      performChecks this message r =
        (Inr False, \<lparr>world = w, trace = trace r1 @ [CheckCall (length pre) message (Inr False)]\<rparr>)) \<and>
   (fst (performChecks this message r) = Inr True \<longleftrightarrow>
      new_events r (snd (performChecks this message r)) =
        map (\<lambda>k. CheckCall k message (Inr True)) [0..<length (Command.checks this)]) \<and>
   length (new_events r (snd (performChecks this message r))) \<le> length (Command.checks this) \<and>
   (\<forall>j < length (new_events r (snd (performChecks this message r))).
      \<exists>x. new_events r (snd (performChecks this message r)) ! j = CheckCall j message x \<and>
          (Suc j < length (new_events r (snd (performChecks this message r))) \<longrightarrow> x = Inr True))"
proof -
  obtain res r' where pc: "run_checks 0 (Command.checks this) message r = (res, r')"
    by (cases "run_checks 0 (Command.checks this) message r")
  from run_checks_events [OF pc] obtain evs where
    evs: "trace r' = trace r @ evs" "length evs \<le> length (Command.checks this)"
      "\<forall>j < length evs. \<exists>x. evs ! j = CheckCall (0 + j) message x \<and> (Suc j < length evs \<longrightarrow> x = Inr True)"
      "res = Inr True \<longleftrightarrow>
         evs = map (\<lambda>j. CheckCall j message (Inr True)) [0..<0 + length (Command.checks this)]"
    by blast
  have ne: "new_events r (snd (performChecks this message r)) = evs"
    using evs(1) pc by (simp add: performChecks_def trace_new_events)
  have fr: "fst (performChecks this message r) = res"
    using pc by (simp add: performChecks_def)
  have 1: "Command.checks this = [] \<longrightarrow> performChecks this message r = (Inr True, r)"
    by (simp add: performChecks_def)
  have 2: "Command.checks this = pre @ check # post \<and> run_checks 0 pre message r = (Inr True, r1) \<and>
    check message (world r1) = (Inr False, w) \<longrightarrow>
      performChecks this message r =
        (Inr False, \<lparr>world = w, trace = trace r1 @ [CheckCall (length pre) message (Inr False)]\<rparr>)"
    by (simp add: performChecks_def run_checks_append call_check_def)
  have 3: "fst (performChecks this message r) = Inr True \<longleftrightarrow>
      new_events r (snd (performChecks this message r)) =
        map (\<lambda>k. CheckCall k message (Inr True)) [0..<length (Command.checks this)]"
    unfolding ne fr using evs(4) by simp
  have 4: "length (new_events r (snd (performChecks this message r))) \<le> length (Command.checks this)"
    unfolding ne using evs(2) .
  have 5: "\<forall>j < length (new_events r (snd (performChecks this message r))).
      \<exists>x. new_events r (snd (performChecks this message r)) ! j = CheckCall j message x \<and>
          (Suc j < length (new_events r (snd (performChecks this message r))) \<longrightarrow> x = Inr True)"
    unfolding ne using evs(3) by simp
  have 0: "Command.checks (Command_addCheck chk this) = Command.checks this @ chk"
    by (simp add: Command_addCheck_def)
  show ?thesis using 0 1 2 3 4 5 by (intro conjI)
qed

text \<open>
  The theorem at the specification's example: the third check would throw if it were called.
\<close>

theorem performChecks_ordered_short_circuit_witness:
  "Command.checks three_checks_command = [returnsTrue] @ returnsFalse # [neverCalled] \<and>
   performChecks three_checks_command ping_message run0 =
     (Inr False, \<lparr>world = 2, trace = [CheckCall 0 ping_message (Inr True),
                                      CheckCall 1 ping_message (Inr False)]\<rparr>) \<and>
   Command.checks ping_command = [] \<and>
   performChecks ping_command ping_message run0 = (Inr True, run0) \<and>
   new_events run0 (snd (performChecks three_checks_command ping_message run0)) ! 0 =
     CheckCall 0 ping_message (Inr True)"
proof -
  let ?r1 = "\<lparr>world = 1, trace = [CheckCall 0 ping_message (Inr True)]\<rparr> :: (message, string, nat) run"
  note inst = performChecks_ordered_short_circuit
    [where this = three_checks_command and pre = "[returnsTrue]" and check = returnsFalse
       and post = "[neverCalled]" and message = ping_message and r = run0 and ?r1.0 = ?r1 and w = 2]
  have h1: "Command.checks three_checks_command = [returnsTrue] @ returnsFalse # [neverCalled]"
    by (simp add: three_checks_command_def)
  have h2: "run_checks 0 [returnsTrue] ping_message run0 = (Inr True, ?r1)"
    by (simp add: ex_defs run_defs)
  have h3: "returnsFalse ping_message (world ?r1) = (Inr False, 2)"
    by (simp add: returnsFalse_def)
  have c1: "performChecks three_checks_command ping_message run0 =
        (Inr False, \<lparr>world = 2, trace = trace ?r1 @ [CheckCall (length [returnsTrue]) ping_message (Inr False)]\<rparr>)"
    using inst h1 h2 h3 by blast
  have h4: "Command.checks ping_command = []" by (simp add: ping_command_def)
  have c2: "performChecks ping_command ping_message run0 = (Inr True, run0)"
    using performChecks_ordered_short_circuit [where this = ping_command and message = ping_message and r = run0] h4
    by blast
  have len: "0 < length (new_events run0 (snd (performChecks three_checks_command ping_message run0)))"
    "Suc 0 < length (new_events run0 (snd (performChecks three_checks_command ping_message run0)))"
    by (simp_all add: ex_defs run_defs)
  have c3: "new_events run0 (snd (performChecks three_checks_command ping_message run0)) ! 0 =
     CheckCall 0 ping_message (Inr True)"
    using inst len by blast
  have k1: "performChecks three_checks_command ping_message run0 =
     (Inr False, \<lparr>world = 2, trace = [CheckCall 0 ping_message (Inr True),
                                      CheckCall 1 ping_message (Inr False)]\<rparr>)"
    using c1 by simp
  show ?thesis using h1 k1 h4 c2 c3 by blast
qed

subsection \<open>C8: the name of a command\<close>

text \<open>
  Claim C8 says that the name of a constructed command never contains a space. The constructor
  rejects an explicit name that is empty or contains a space, but it takes the handler's own
  \<^verbatim>\<open>name\<close> in its place without looking at it. A bound function is named
  \<^verbatim>\<open>bound hello\<close>, so the command built from it, with no name or with a rejected
  name, has a space in its name.
\<close>

theorem fallback_name_contains_space:
  "Command_new (Some bound_hello_fn) None None None =
     Inr \<lparr>Command.name = ''bound hello'', usage = [], Command.checks = [],
          commandFunction = bound_hello_fn\<rparr> \<and>
   Command_new (Some bound_hello_fn) (Some ''say hi'') (Some ''text'') None =
     Inr \<lparr>Command.name = ''bound hello'', usage = ''text'', Command.checks = [],
          commandFunction = bound_hello_fn\<rparr> \<and>
   CHR '' '' \<in> set ''bound hello''"
  by (simp add: Command_new_def Command_parseArgs_def bound_hello_fn_def slice_def)

subsection \<open>C9: empty input, runs of spaces, unterminated quote\<close>

text \<open>
  Claim C9. The empty remainder has no tokens; \<^verbatim>\<open>a  b\<close> with two spaces has the
  tokens \<^verbatim>\<open>a\<close> and \<^verbatim>\<open>b\<close>; an opening quote that is never closed still
  gives its content as the last token. In general a run of spaces outside quotes tokenizes as
  a single space, wherever it stands, and the content after an unclosed opening quote is one
  token.
\<close>

theorem tokenize_edge_cases:
  "tokenize [] = [] \<and>
   tokenize ''a  b'' = [''a'', ''b''] \<and>
   tokenize (dquote # ''unterminated'') = [''unterminated''] \<and>
   (\<not> inQuote (scanLoop s) \<and> \<not> escaped (scanLoop s) \<longrightarrow>
      tokenize (s @ replicate (Suc n) (CHR '' '') @ t) = tokenize (s @ CHR '' '' # t)) \<and>
   (dquote \<notin> set q \<and> backslash \<notin> set q \<and> q \<noteq> [] \<longrightarrow> tokenize (dquote # q) = [q])"
proof (intro conjI impI)
  show "tokenize [] = []" by (simp add: tok_defs)
  show "tokenize ''a  b'' = [''a'', ''b'']" by (simp add: tok_defs)
  show "tokenize (dquote # ''unterminated'') = [''unterminated'']" by (simp add: tok_defs)
  show "tokenize (s @ replicate (Suc n) (CHR '' '') @ t) = tokenize (s @ CHR '' '' # t)"
    if "\<not> inQuote (scanLoop s) \<and> \<not> escaped (scanLoop s)"
    using that by (intro tokenize_spaces_collapse) simp_all
  show "tokenize (dquote # q) = [q]" if q: "dquote \<notin> set q \<and> backslash \<notin> set q \<and> q \<noteq> []"
  proof -
    have 1: "step scan_init dquote = scan_init\<lparr>inQuote := True\<rparr>"
      by (subst step_open_quote) (simp_all add: scan_init_def)
    have 2: "foldl step (scan_init\<lparr>inQuote := True\<rparr>) q = scan_init\<lparr>inQuote := True, buffer := q\<rparr>"
      using q by (subst foldl_step_literal) (simp_all add: scan_init_def)
    show ?thesis using q by (simp add: tokenize_def scanLoop_def 1 2 finish_def) (simp add: scan_init_def)
  qed
qed

text \<open>The theorem at concrete inputs: four spaces between two words, an unclosed quote.\<close>

theorem tokenize_edge_cases_witness:
  "\<not> inQuote (scanLoop ''a'') \<and> \<not> escaped (scanLoop ''a'') \<and>
   tokenize (''a'' @ replicate 4 (CHR '' '') @ ''b'') = [''a'', ''b''] \<and>
   tokenize (dquote # ''x y'') = [''x y'']"
proof -
  have st: "\<not> inQuote (scanLoop ''a'') \<and> \<not> escaped (scanLoop ''a'')" by (simp add: tok_defs)
  have 1: "tokenize (''a'' @ replicate (Suc 3) (CHR '' '') @ ''b'') = tokenize (''a'' @ CHR '' '' # ''b'')"
    using tokenize_edge_cases [of "''a''" 3 "''b''"] st by blast
  have 2: "tokenize (dquote # ''x y'') = [''x y'']"
    using tokenize_edge_cases [of _ _ _ "''x y''"] by simp
  have v: "tokenize (''a'' @ CHR '' '' # ''b'') = [''a'', ''b'']" by (simp add: tok_defs)
  have n: "(4::nat) = Suc 3" by simp
  show ?thesis using st 1 2 v unfolding n by simp
qed

subsection \<open>C10: no empty token\<close>

text \<open>
  Claim C10. Every token the tokenizer returns is a non-empty string, because every token
  pushed during the scan is; an empty quoted pair and a run of spaces give no token.
\<close>

theorem tokens_are_nonempty:
  "(\<forall>t \<in> set (tokenize s). t \<noteq> []) \<and>
   (\<forall>t \<in> set (argArr (scanLoop s)). t \<noteq> []) \<and>
   tokenize [dquote, dquote] = [] \<and>
   tokenize (replicate n (CHR '' '')) = []"
proof (intro conjI)
  show "\<forall>t \<in> set (tokenize s). t \<noteq> []" by (rule tokenize_nonempty)
  show "\<forall>t \<in> set (argArr (scanLoop s)). t \<noteq> []"
    unfolding scanLoop_def by (rule foldl_step_nonempty) (simp add: scan_init_def)
  show "tokenize [dquote, dquote] = []" by (simp add: tok_defs)
  show "tokenize (replicate n (CHR '' '')) = []"
    by (subst tokenize_plain) (simp_all add: split_sp_spaces)
qed

text \<open>
  The theorem at a concrete input with an empty quoted pair and a double space between two
  words.
\<close>

theorem tokens_are_nonempty_witness:
  "''b'' \<in> set (tokenize (''a '' @ [dquote, dquote] @ ''  b'')) \<and> ''b'' \<noteq> [] \<and>
   length (tokenize (''a '' @ [dquote, dquote] @ ''  b'')) = 2 \<and>
   tokenize (replicate 3 (CHR '' '')) = []"
proof -
  have m: "''b'' \<in> set (tokenize (''a '' @ [dquote, dquote] @ ''  b''))" by (simp add: tok_defs)
  have "\<forall>t \<in> set (tokenize (''a '' @ [dquote, dquote] @ ''  b'')). t \<noteq> []"
    using tokens_are_nonempty [of "''a '' @ [dquote, dquote] @ ''  b''" 3] by blast
  then have ne: "''b'' \<noteq> []" using m by blast
  have l: "length (tokenize (''a '' @ [dquote, dquote] @ ''  b'')) = 2" by (simp add: tok_defs)
  have sp: "tokenize (replicate 3 (CHR '' '')) = []"
    using tokens_are_nonempty [of "[]" 3] by blast
  show ?thesis using m ne l sp by blast
qed

end
